theory Spec2Isabelle
  imports Main "HOL-Library.Sublist"
begin

section \<open>Common data\<close>

text \<open>
  A Python \<^verbatim>\<open>str\<close> is a sequence of Unicode code points; it is modelled as a list of
  code points. \<open>str\<close> turns an ASCII literal into such a list.
\<close>

type_synonym pystr = "nat list"

definition str :: "string \<Rightarrow> pystr" where
  "str cs = map of_char cs"

text \<open>The exceptions the modelled code can raise.\<close>

datatype py_error = TypeError | AssertionError | ValueError | IndexError

section \<open>Clippings (clip\_utils.py)\<close>

text \<open>
  \<^verbatim>\<open>Clipping.location\<close> is the list \<^verbatim>\<open>[int(_) for _ in match.group("location").split("-")]\<close>
  of a string matching \<^verbatim>\<open>\d+(?:-\d+)?\<close>: one integer or two.  \<open>loc_first\<close> is
  \<^verbatim>\<open>location[0]\<close> and \<open>loc_last\<close> is \<^verbatim>\<open>location[-1]\<close>.
\<close>

datatype location = Single nat | Range nat nat

fun loc_first :: "location \<Rightarrow> nat" where
  "loc_first (Single a) = a"
| "loc_first (Range a b) = a"

fun loc_last :: "location \<Rightarrow> nat" where
  "loc_last (Single a) = a"
| "loc_last (Range a b) = b"

datatype clip_kind = Highlight | Note

record clipping =
  clip_title :: pystr
  clip_type :: clip_kind
  clip_location :: location
  clip_date :: "nat option"
  clip_color :: "pystr option"
  clip_note :: "pystr option"
  clip_content :: pystr

subsection \<open>Note attachment of the plain-text export (parse\_txt\_clippings, lines 135-143)\<close>

text \<open>
  The test of line 138:
  \<^verbatim>\<open>clip.title == note.title and clip.location[-1] == note.location[0]\<close>.
\<close>

definition qualifies :: "clipping \<Rightarrow> clipping \<Rightarrow> bool" where
  "qualifies clip n \<longleftrightarrow>
     clip_title clip = clip_title n \<and>
     loc_last (clip_location clip) = loc_first (clip_location n)"

text \<open>
  The inner loop \<^verbatim>\<open>for clip in reversed(parsed_clips)\<close>, on the reversed list: the first
  qualifying clip gets \<^verbatim>\<open>clip.note = note.content\<close>, then \<^verbatim>\<open>break\<close>.
\<close>

fun attach_rev :: "clipping \<Rightarrow> clipping list \<Rightarrow> clipping list" where
  "attach_rev n [] = []"
| "attach_rev n (clip # rest) =
     (if qualifies clip n then clip\<lparr>clip_note := Some (clip_content n)\<rparr> # rest
      else clip # attach_rev n rest)"

definition attach_note :: "clipping \<Rightarrow> clipping list \<Rightarrow> clipping list" where
  "attach_note n parsed_clips = rev (attach_rev n (rev parsed_clips))"

text \<open>
  A line of the log: the warning of line 142 with the note's content and location.
\<close>

datatype log_line = Could_not_be_matched pystr location

definition warn_str :: "clipping \<Rightarrow> log_line" where
  "warn_str n = Could_not_be_matched (clip_content n) (clip_location n)"

text \<open>
  The outer loop \<^verbatim>\<open>for note in parsed_notes\<close>.  Lines 142-143 are at the indentation of the
  inner \<^verbatim>\<open>for\<close>, with no \<^verbatim>\<open>else\<close>: they run for every note.
\<close>

fun attach_notes :: "clipping list \<Rightarrow> clipping list \<times> log_line list \<Rightarrow> clipping list \<times> log_line list" where
  "attach_notes [] (parsed_clips, log) = (parsed_clips, log)"
| "attach_notes (n # parsed_notes) (parsed_clips, log) =
     attach_notes parsed_notes (attach_note n parsed_clips, log @ [warn_str n])"

text \<open>
  Both lists are sorted by \<^verbatim>\<open>date\<close> (lines 130 and 133) before the loop runs; a missing date
  cannot be compared.
\<close>

definition date_le :: "clipping \<Rightarrow> clipping \<Rightarrow> bool" where
  "date_le a b = (case (clip_date a, clip_date b) of (Some x, Some y) \<Rightarrow> x \<le> y | _ \<Rightarrow> False)"

definition ascending_by_date :: "clipping list \<Rightarrow> bool" where
  "ascending_by_date cs = sorted_wrt date_le cs"

subsection \<open>Note attachment of the markup export (parse\_html\_clippings, lines 176-194)\<close>

text \<open>The assertions of lines 176-179, one for each \<^verbatim>\<open>ix in range(1, len(all_clips))\<close>.\<close>

definition ordered_by_location :: "clipping list \<Rightarrow> bool" where
  "ordered_by_location all_clips =
     list_all (\<lambda>ix. loc_first (clip_location (all_clips ! (ix - 1)))
                     \<le> loc_first (clip_location (all_clips ! ix)))
       [1..<length all_clips]"

definition note_indices :: "clipping list \<Rightarrow> nat list" where
  "note_indices all_clips = filter (\<lambda>ix. clip_type (all_clips ! ix) = Note) [0..<length all_clips]"

text \<open>
  The loop of lines 185-188.  It runs only after \<^verbatim>\<open>note_indices[0] > 0\<close> was asserted, so
  \<^verbatim>\<open>note_ix - 1\<close> is never negative.
\<close>

fun attach_prev :: "nat list \<Rightarrow> clipping list \<Rightarrow> clipping list" where
  "attach_prev [] all_clips = all_clips"
| "attach_prev (note_ix # rest) all_clips =
     attach_prev rest
       (all_clips[note_ix - 1 :=
          (all_clips ! (note_ix - 1))\<lparr>clip_note := Some (clip_content (all_clips ! note_ix))\<rparr>])"

definition parse_html_attach :: "clipping list \<Rightarrow> py_error + clipping list" where
  "parse_html_attach all_clips =
     (if \<not> ordered_by_location all_clips then Inl AssertionError
      else
        let ni = note_indices all_clips in
        if length ni > 0 then
          (if \<not> hd ni > 0 then Inl AssertionError
           else Inr (filter (\<lambda>clip. clip_type clip = Highlight) (attach_prev ni all_clips)))
        else Inr all_clips)"

text \<open>What lines 185-188 leave at index \<open>i\<close>: the clipping, with the content of the note that follows it.\<close>

definition with_next_note :: "clipping list \<Rightarrow> nat \<Rightarrow> clipping" where
  "with_next_note cs i =
     (if Suc i < length cs \<and> clip_type (cs ! Suc i) = Note
      then (cs ! i)\<lparr>clip_note := Some (clip_content (cs ! Suc i))\<rparr>
      else cs ! i)"

text \<open>The example of the note-attachment property: highlights at location 1-5 and a note at location 5, of one title.\<close>

definition hl :: "nat \<Rightarrow> clipping" where
  "hl t = \<lparr>clip_title = str ''Book'', clip_type = Highlight, clip_location = Range 1 5,
           clip_date = Some t, clip_color = None, clip_note = None,
           clip_content = str ''text''\<rparr>"

definition nt :: "nat \<Rightarrow> clipping" where
  "nt t = \<lparr>clip_title = str ''Book'', clip_type = Note, clip_location = Single 5,
           clip_date = Some t, clip_color = None, clip_note = None,
           clip_content = str ''remark''\<rparr>"

section \<open>The window aligner (utils.py, min\_window\_subsequence)\<close>

text \<open>
  The function compares the elements of \<^verbatim>\<open>s\<close> and \<^verbatim>\<open>t\<close> with \<^verbatim>\<open>==\<close> only, so the model is
  polymorphic in the type of characters.  The three loops of lines 71-96 are three recursive
  functions.

  The forward scan of lines 76-81, entered with \<^verbatim>\<open>j = 0\<close> and \<^verbatim>\<open>k = i\<close>: it returns the values of
  \<^verbatim>\<open>k\<close> and \<^verbatim>\<open>j\<close> after the loop.
\<close>


function forward_scan :: "'a list \<Rightarrow> 'a list \<Rightarrow> nat \<Rightarrow> nat \<Rightarrow> nat \<times> nat" where
  "forward_scan s t k j =
     (if k < length s then
        if s ! k = t ! j then
          (if j + 1 = length t then (k, j + 1) else forward_scan s t (k + 1) (j + 1))
        else forward_scan s t (k + 1) j
      else (k, j))"
  by pat_completeness auto
termination
  by (relation "measure (\<lambda>(s, t, k, j). length s - k)") auto

text \<open>
  The backward scan of lines 86-91.  \<^verbatim>\<open>k\<close> and \<^verbatim>\<open>j\<close> are decremented and \<^verbatim>\<open>j\<close> reaches \<open>-1\<close>, so
  both are integers; the guard \<^verbatim>\<open>k >= i\<close> keeps the index \<^verbatim>\<open>s[k]\<close> from being negative.
\<close>


function backward_scan :: "'a list \<Rightarrow> 'a list \<Rightarrow> nat \<Rightarrow> int \<Rightarrow> int \<Rightarrow> int \<times> int" where
  "backward_scan s t i k j =
     (if k \<ge> int i then
        if s ! nat k = t ! nat j then
          (if j - 1 < 0 then (k, j - 1) else backward_scan s t i (k - 1) (j - 1))
        else backward_scan s t i (k - 1) j
      else (k, j))"
  by pat_completeness auto
termination
  by (relation "measure (\<lambda>(s, t, i, k, j). nat (k - int i + 1))") auto

declare forward_scan.simps [simp del] backward_scan.simps [simp del]

text \<open>
  Lines 92-94: \<^verbatim>\<open>min_len\<close> starts as \<^verbatim>\<open>float("inf")\<close>, here \<open>None\<close>, and \<^verbatim>\<open>start_idx\<close> as \<open>-1\<close>; a
  window replaces the recorded one only when \<^verbatim>\<open>end - k < min_len\<close>.
\<close>


definition record_window :: "int \<Rightarrow> int \<Rightarrow> int option \<times> int \<Rightarrow> int option \<times> int" where
  "record_window end k st =
     (if (case fst st of None \<Rightarrow> True | Some min_len \<Rightarrow> end - k < min_len)
      then (Some (end - k), k + 1)
      else st)"

text \<open>Python's slice \<^verbatim>\<open>s[a:b]\<close> with integer bounds: a negative bound counts from the end, and both are clipped.\<close>


definition py_slice :: "'a list \<Rightarrow> int \<Rightarrow> int \<Rightarrow> 'a list" where
  "py_slice s a b =
     (let n = int (length s);
          lo = (if a < 0 then max (a + n) 0 else min a n);
          hi = (if b < 0 then max (b + n) 0 else min b n)
      in take (nat (hi - lo)) (drop (nat lo) s))"

text \<open>
  Notions of the specification.  \<open>win s a b\<close> is the contiguous substring of \<open>s\<close> from position
  \<open>a\<close> up to \<open>b\<close>, exclusive; a window is valid when it contains \<open>t\<close> as a subsequence, and tight when
  no valid window is obtained by dropping its first or its last character.  \<open>better\<close> orders
  windows by length and, at equal length, by starting position.
\<close>


definition win :: "'a list \<Rightarrow> nat \<Rightarrow> nat \<Rightarrow> 'a list" where
  "win s a b = take (b - a) (drop a s)"

definition valid :: "'a list \<Rightarrow> 'a list \<Rightarrow> nat \<Rightarrow> nat \<Rightarrow> bool" where
  "valid s t a b \<longleftrightarrow> a \<le> b \<and> b \<le> length s \<and> subseq t (win s a b)"

definition tight :: "'a list \<Rightarrow> 'a list \<Rightarrow> nat \<Rightarrow> nat \<Rightarrow> bool" where
  "tight s t a b \<longleftrightarrow> valid s t a b \<and> \<not> valid s t (Suc a) b \<and> \<not> valid s t a (b - 1)"

definition better :: "nat \<Rightarrow> nat \<Rightarrow> nat \<Rightarrow> nat \<Rightarrow> bool" where
  "better a0 b0 a b \<longleftrightarrow> b0 - a0 < b - a \<or> (b0 - a0 = b - a \<and> a0 \<le> a)"

text \<open>
  \<open>greedy p u\<close> is the length of the shortest prefix of \<open>u\<close> that contains \<open>p\<close> as a subsequence:
  what a scan that takes every first match computes.  Both scans are instances of it.
\<close>


fun greedy :: "'a list \<Rightarrow> 'a list \<Rightarrow> nat option" where
  "greedy [] u = Some 0"
| "greedy (x # xs) [] = None"
| "greedy (x # xs) (y # ys) =
     map_option Suc (if x = y then greedy xs ys else greedy (x # xs) ys)"

text \<open>
  The invariant of the outer loop at position \<open>i\<close>: either nothing is recorded and no tight
  window starts before \<open>i\<close>, or a valid window starting before \<open>i\<close> is recorded that is better than
  every tight window starting before \<open>i\<close>.
\<close>


definition loop_inv :: "'a list \<Rightarrow> 'a list \<Rightarrow> nat \<Rightarrow> int option \<times> int \<Rightarrow> bool" where
  "loop_inv s t i st \<longleftrightarrow>
     (st = (None, - 1) \<and> (\<forall>a b. tight s t a b \<longrightarrow> i \<le> a)) \<or>
     (\<exists>a0 b0. st = (Some (int b0 - 1 - int a0), int a0 + 1) \<and> valid s t a0 b0 \<and> a0 < i \<and>
        (\<forall>a b. tight s t a b \<and> a < i \<longrightarrow> better a0 b0 a b))"

subsection \<open>The two scans, and the termination of the outer loop\<close>

text \<open>
  The outer loop continues at \<^verbatim>\<open>k + 1\<close>, where \<^verbatim>\<open>k\<close> is left by the backward scan.  It
  terminates because a backward scan that follows a successful forward scan from \<^verbatim>\<open>i\<close> stops
  at some \<^verbatim>\<open>k >= i\<close>.
\<close>


lemma greedy_sound:
  "greedy p u = Some l \<Longrightarrow> l \<le> length u \<and> subseq p (take l u)"
proof (induction p u arbitrary: l rule: greedy.induct)
  case (1 u)
  then show ?case by simp
next
  case (2 x xs)
  then show ?case by simp
next
  case (3 x xs y ys)
  show ?case
  proof (cases "x = y")
    case True
    with "3.prems" obtain l' where l': "greedy xs ys = Some l'" "l = Suc l'" by auto
    with "3.IH"(1)[OF True l'(1)] True show ?thesis by simp
  next
    case False
    with "3.prems" obtain l' where l': "greedy (x # xs) ys = Some l'" "l = Suc l'" by auto
    with "3.IH"(2)[OF False l'(1)] False show ?thesis by simp
  qed
qed

lemma greedy_least:
  "subseq p (take l' u) \<Longrightarrow> \<exists>l. greedy p u = Some l \<and> l \<le> l'"
proof (induction p u arbitrary: l' rule: greedy.induct)
  case (1 u)
  then show ?case by simp
next
  case (2 x xs)
  then show ?case by simp
next
  case (3 x xs y ys)
  from "3.prems" obtain l'' where l'': "l' = Suc l''" by (cases l') auto
  show ?case
  proof (cases "x = y")
    case True
    with "3.prems" l'' have "subseq xs (take l'' ys)" by simp
    from "3.IH"(1)[OF True this] True l'' show ?thesis by auto
  next
    case False
    with "3.prems" l'' have "subseq (x # xs) (take l'' ys)" by simp
    from "3.IH"(2)[OF False this] False l'' show ?thesis by auto
  qed
qed

lemma greedy_pos: "p \<noteq> [] \<Longrightarrow> greedy p u = Some l \<Longrightarrow> 0 < l"
  by (cases p; cases u) auto

lemma greedy_none: "greedy p u = None \<Longrightarrow> \<not> subseq p u"
  using greedy_least[of p "length u" u] by auto

lemma subseq_rev: "subseq xs ys \<Longrightarrow> subseq (rev xs) (rev ys)"
proof (induction rule: list_emb.induct)
  case (list_emb_Nil ys)
  then show ?case by simp
next
  case (list_emb_Cons xs ys y)
  then show ?case by (simp add: subseq_rev_drop_many)
next
  case (list_emb_Cons2 x y xs ys)
  then show ?case by (simp add: list_emb_append_mono)
qed

lemma subseq_rev_iff: "subseq (rev xs) (rev ys) \<longleftrightarrow> subseq xs ys"
  using subseq_rev[of xs ys] subseq_rev[of "rev xs" "rev ys"] by auto

lemma win_length: "b \<le> length s \<Longrightarrow> length (win s a b) = b - a"
  by (simp add: win_def)

lemma win_snoc: "a \<le> k \<Longrightarrow> k < length s \<Longrightarrow> win s a (Suc k) = win s a k @ [s ! k]"
proof -
  assume a: "a \<le> k" and k: "k < length s"
  have "take (Suc (k - a)) (drop a s) = take (k - a) (drop a s) @ [drop a s ! (k - a)]"
    using a k by (simp add: take_Suc_conv_app_nth)
  moreover have "drop a s ! (k - a) = s ! k" using a k by simp
  moreover have "Suc k - a = Suc (k - a)" using a by simp
  ultimately show ?thesis by (simp add: win_def)
qed

lemma win_split:
  "a \<le> b \<Longrightarrow> b \<le> c \<Longrightarrow> win s a c = win s a b @ win s b c"
proof -
  assume ab: "a \<le> b" and bc: "b \<le> c"
  have "c - a = (b - a) + (c - b)" using ab bc by simp
  then have "take (c - a) (drop a s) = take (b - a) (drop a s) @ take (c - b) (drop (b - a) (drop a s))"
    by (simp add: take_add)
  moreover have "drop (b - a) (drop a s) = drop b s" using ab by simp
  ultimately show ?thesis by (simp add: win_def)
qed

lemma win_mono:
  assumes "a' \<le> a" "a \<le> b" "b \<le> b'" "subseq t (win s a b)"
  shows "subseq t (win s a' b')"
proof -
  have "win s a' b' = win s a' a @ win s a b @ win s b b'"
    using assms(1-3) win_split[of a' a b' s] win_split[of a b b' s] by simp
  then show ?thesis using assms(4) by (simp add: subseq_drop_many subseq_rev_drop_many)
qed

lemma win_full: "win s a (length s) = drop a s"
  by (simp add: win_def)

lemma win_take: "b \<le> c \<Longrightarrow> a \<le> b \<Longrightarrow> take (b - a) (win s a c) = win s a b"
  by (simp add: win_def min_def)

lemma win_drop:
  assumes "a \<le> b" "b \<le> c" "c \<le> length s"
  shows "drop (b - a) (win s a c) = win s b c"
proof -
  have "length (win s a b) = b - a" using assms by (simp add: win_length)
  then show ?thesis using win_split[OF assms(1,2), of s] by simp
qed

lemma forward_scan_greedy:
  "j < length t \<Longrightarrow> k \<le> length s \<Longrightarrow>
   (case greedy (drop j t) (drop k s) of
      Some l \<Rightarrow> forward_scan s t k j = (k + l - 1, length t)
    | None \<Rightarrow> snd (forward_scan s t k j) < length t)"
proof (induction s t k j rule: forward_scan.induct)
  case (1 s t k j)
  have dt: "drop j t = t ! j # drop (Suc j) t"
    using "1.prems"(1) by (simp add: Cons_nth_drop_Suc)
  show ?case
  proof (cases "k < length s")
    case False
    then have "drop k s = []" by simp
    then have "greedy (drop j t) (drop k s) = None" using dt by simp
    moreover have "forward_scan s t k j = (k, j)"
      using False by (subst forward_scan.simps) simp
    ultimately show ?thesis using "1.prems"(1) by simp
  next
    case True
    have ds: "drop k s = s ! k # drop (Suc k) s"
      using True by (simp add: Cons_nth_drop_Suc)
    show ?thesis
    proof (cases "s ! k = t ! j")
      case eq: True
      show ?thesis
      proof (cases "j + 1 = length t")
        case last: True
        then have "drop (Suc j) t = []" by simp
        then have "greedy (drop j t) (drop k s) = Some 1"
          using eq by (simp add: dt ds)
        moreover have "forward_scan s t k j = (k, j + 1)"
          using True eq last by (subst forward_scan.simps) simp
        ultimately show ?thesis using last by simp
      next
        case more: False
        have g: "greedy (drop j t) (drop k s) =
                   map_option Suc (greedy (drop (Suc j) t) (drop (Suc k) s))"
          using eq by (simp add: dt ds)
        have f: "forward_scan s t k j = forward_scan s t (k + 1) (j + 1)"
          using True eq more by (subst forward_scan.simps) simp
        have ne: "drop (Suc j) t \<noteq> []" using more "1.prems"(1) by simp
        have IH: "case greedy (drop (j + 1) t) (drop (k + 1) s) of
                    Some l \<Rightarrow> forward_scan s t (k + 1) (j + 1) = (k + 1 + l - 1, length t)
                  | None \<Rightarrow> snd (forward_scan s t (k + 1) (j + 1)) < length t"
          using "1.IH"(1)[OF True eq more] more "1.prems"(1) True by simp
        show ?thesis
        proof (cases "greedy (drop (Suc j) t) (drop (Suc k) s)")
          case None
          then show ?thesis using IH g f by simp
        next
          case (Some l)
          then have "0 < l" using greedy_pos[OF ne] by simp
          then show ?thesis using IH g f Some by simp
        qed
      qed
    next
      case neq: False
      have g: "greedy (drop j t) (drop k s) =
                 map_option Suc (greedy (drop j t) (drop (Suc k) s))"
        using neq by (subst (1 2) dt, subst ds) simp
      have f: "forward_scan s t k j = forward_scan s t (k + 1) j"
        using True neq by (subst forward_scan.simps) simp
      have ne: "drop j t \<noteq> []" using "1.prems"(1) by simp
      have IH: "case greedy (drop j t) (drop (k + 1) s) of
                  Some l \<Rightarrow> forward_scan s t (k + 1) j = (k + 1 + l - 1, length t)
                | None \<Rightarrow> snd (forward_scan s t (k + 1) j) < length t"
        using "1.IH"(2)[OF True neq] "1.prems"(1) True by simp
      show ?thesis
      proof (cases "greedy (drop j t) (drop (Suc k) s)")
        case None
        then show ?thesis using IH g f by simp
      next
        case (Some l)
        then have "0 < l" using greedy_pos[OF ne] by simp
        then show ?thesis using IH g f Some by simp
      qed
    qed
  qed
qed

lemma rev_win_snoc:
  "a \<le> k \<Longrightarrow> k < length s \<Longrightarrow> rev (win s a (Suc k)) = s ! k # rev (win s a k)"
  by (simp add: win_snoc)

lemma rev_take_Suc: "j < length t \<Longrightarrow> rev (take (Suc j) t) = t ! j # rev (take j t)"
  by (simp add: take_Suc_conv_app_nth)

lemma backward_scan_greedy:
  "0 \<le> j \<Longrightarrow> nat j < length t \<Longrightarrow> k < int (length s) \<Longrightarrow> int i \<le> k + 1 \<Longrightarrow>
   (case greedy (rev (take (Suc (nat j)) t)) (rev (win s i (nat (k + 1)))) of
      Some l \<Rightarrow> backward_scan s t i k j = (k + 1 - int l, - 1)
    | None \<Rightarrow> 0 \<le> snd (backward_scan s t i k j))"
proof (induction s t i k j rule: backward_scan.induct)
  case (1 s t i k j)
  have rt: "rev (take (Suc (nat j)) t) = t ! nat j # rev (take (nat j) t)"
    using "1.prems"(2) by (rule rev_take_Suc)
  show ?case
  proof (cases "int i \<le> k")
    case False
    then have "nat (k + 1) = i" using "1.prems"(4) by simp
    then have "win s i (nat (k + 1)) = []" by (simp add: win_def)
    then have "greedy (rev (take (Suc (nat j)) t)) (rev (win s i (nat (k + 1)))) = None"
      using rt by simp
    moreover have "backward_scan s t i k j = (k, j)"
      using False by (subst backward_scan.simps) simp
    ultimately show ?thesis using "1.prems"(1) by simp
  next
    case True
    then have k0: "0 \<le> k" by simp
    have nk: "nat (k + 1) = Suc (nat k)" using k0 by simp
    have rs: "rev (win s i (nat (k + 1))) = s ! nat k # rev (win s i (nat k))"
      unfolding nk using True "1.prems"(3) k0 by (intro rev_win_snoc) simp_all
    have nk1: "nat (k - 1 + 1) = nat k" by simp
    show ?thesis
    proof (cases "s ! nat k = t ! nat j")
      case eq: True
      show ?thesis
      proof (cases "j - 1 < 0")
        case last: True
        then have j0: "nat j = 0" by simp
        have "greedy (rev (take (Suc (nat j)) t)) (rev (win s i (nat (k + 1)))) = Some 1"
          unfolding rt rs using eq j0 by simp
        moreover have "backward_scan s t i k j = (k, j - 1)"
          using True eq last by (subst backward_scan.simps) simp
        moreover have "j - 1 = - 1" using last "1.prems"(1) by simp
        ultimately show ?thesis by simp
      next
        case more: False
        then have nj: "nat j = Suc (nat (j - 1))" by simp
        have g: "greedy (rev (take (Suc (nat j)) t)) (rev (win s i (nat (k + 1)))) =
                   map_option Suc (greedy (rev (take (Suc (nat (j - 1))) t)) (rev (win s i (nat (k - 1 + 1)))))"
          unfolding rt rs nk1 using eq nj by simp
        have f: "backward_scan s t i k j = backward_scan s t i (k - 1) (j - 1)"
          using True eq more by (subst backward_scan.simps) simp
        have ne: "rev (take (Suc (nat (j - 1))) t) \<noteq> []" using "1.prems"(2) by auto
        have IH: "case greedy (rev (take (Suc (nat (j - 1))) t)) (rev (win s i (nat (k - 1 + 1)))) of
                    Some l \<Rightarrow> backward_scan s t i (k - 1) (j - 1) = (k - 1 + 1 - int l, - 1)
                  | None \<Rightarrow> 0 \<le> snd (backward_scan s t i (k - 1) (j - 1))"
          using "1.IH"(1)[OF True eq more] more "1.prems" True by simp
        show ?thesis
        proof (cases "greedy (rev (take (Suc (nat (j - 1))) t)) (rev (win s i (nat (k - 1 + 1))))")
          case None
          then show ?thesis using IH g f by simp
        next
          case (Some l)
          then show ?thesis using IH g f by simp
        qed
      qed
    next
      case neq: False
      have g: "greedy (rev (take (Suc (nat j)) t)) (rev (win s i (nat (k + 1)))) =
                 map_option Suc (greedy (rev (take (Suc (nat j)) t)) (rev (win s i (nat (k - 1 + 1)))))"
        unfolding rs nk1 using neq by (subst (1 2) rt) simp
      have f: "backward_scan s t i k j = backward_scan s t i (k - 1) j"
        using True neq by (subst backward_scan.simps) simp
      have IH: "case greedy (rev (take (Suc (nat j)) t)) (rev (win s i (nat (k - 1 + 1)))) of
                  Some l \<Rightarrow> backward_scan s t i (k - 1) j = (k - 1 + 1 - int l, - 1)
                | None \<Rightarrow> 0 \<le> snd (backward_scan s t i (k - 1) j)"
        using "1.IH"(2)[OF True neq] "1.prems" True by simp
      show ?thesis
      proof (cases "greedy (rev (take (Suc (nat j)) t)) (rev (win s i (nat (k - 1 + 1))))")
        case None
        then show ?thesis using IH g f by simp
      next
        case (Some l)
        then show ?thesis using IH g f by simp
      qed
    qed
  qed
qed

lemma forward_fail:
  assumes "i \<le> length s" "t \<noteq> []" "snd (forward_scan s t i 0) \<noteq> length t"
  shows "\<not> subseq t (drop i s)"
proof (cases "greedy t (drop i s)")
  case None
  then show ?thesis by (rule greedy_none)
next
  case (Some l)
  then have "forward_scan s t i 0 = (i + l - 1, length t)"
    using forward_scan_greedy[of 0 t i s] assms(1,2) by simp
  then show ?thesis using assms(3) by simp
qed

lemma forward_success:
  assumes "i \<le> length s" "t \<noteq> []" "snd (forward_scan s t i 0) = length t"
  shows "\<exists>e. fst (forward_scan s t i 0) = e \<and> i \<le> e \<and> e < length s \<and>
             subseq t (win s i (Suc e)) \<and>
             (\<forall>b. i \<le> b \<and> subseq t (win s i b) \<longrightarrow> Suc e \<le> b)"
proof (cases "greedy t (drop i s)")
  case None
  then have "snd (forward_scan s t i 0) < length t"
    using forward_scan_greedy[of 0 t i s] assms(1,2) by simp
  then show ?thesis using assms(3) by simp
next
  case (Some l)
  then have f: "forward_scan s t i 0 = (i + l - 1, length t)"
    using forward_scan_greedy[of 0 t i s] assms(1,2) by simp
  have l0: "0 < l" using greedy_pos[OF assms(2) Some] .
  have snd: "l \<le> length (drop i s)" "subseq t (take l (drop i s))"
    using greedy_sound[OF Some] by simp_all
  define e where "e = i + l - 1"
  have e: "Suc e = i + l" using l0 by (simp add: e_def)
  have "subseq t (win s i (Suc e))" using snd(2) by (simp add: win_def e)
  moreover have "Suc e \<le> b" if "i \<le> b" "subseq t (win s i b)" for b
  proof -
    have "subseq t (take (b - i) (drop i s))" using that(2) by (simp add: win_def)
    then obtain l2 where "greedy t (drop i s) = Some l2" "l2 \<le> b - i"
      using greedy_least by blast
    then have "l \<le> b - i" using Some by simp
    then show ?thesis using e l0 by simp
  qed
  moreover have "i \<le> e" "e < length s" using e l0 snd(1) by simp_all
  ultimately show ?thesis using f by (simp add: e_def)
qed

lemma rev_win_take:
  assumes "i \<le> a" "a \<le> b" "b \<le> length s"
  shows "take (b - a) (rev (win s i b)) = rev (win s a b)"
proof -
  have "take (b - a) (rev (win s i b)) = rev (drop (length (win s i b) - (b - a)) (win s i b))"
    by (simp add: take_rev)
  moreover have "length (win s i b) - (b - a) = a - i"
    using assms by (simp add: win_length)
  moreover have "drop (a - i) (win s i b) = win s a b"
    using assms by (rule win_drop)
  ultimately show ?thesis by simp
qed

lemma backward_success:
  assumes "i \<le> e" "e < length s" "t \<noteq> []" "subseq t (win s i (Suc e))"
  shows "\<exists>k. backward_scan s t i (int e) (int (length t) - 1) = (int k, - 1) \<and>
             i \<le> k \<and> k \<le> e \<and> subseq t (win s k (Suc e)) \<and>
             (\<forall>a. i \<le> a \<and> a \<le> Suc e \<and> subseq t (win s a (Suc e)) \<longrightarrow> a \<le> k)"
proof -
  define j where "j = int (length t) - 1"
  have j: "0 \<le> j" "nat j < length t" "Suc (nat j) = length t"
    using assms(3) by (cases t; simp add: j_def)+
  have tk: "take (Suc (nat j)) t = t" using j(3) by simp
  have ne: "nat (int e + 1) = Suc e" by simp
  have len: "length (win s i (Suc e)) = Suc e - i" using assms(2) by (simp add: win_length)
  have "subseq (rev t) (take (Suc e - i) (rev (win s i (Suc e))))"
    using assms(4) len by (simp add: subseq_rev_iff)
  then obtain l where g: "greedy (rev t) (rev (win s i (Suc e))) = Some l" and ll: "l \<le> Suc e - i"
    using greedy_least by blast
  have l0: "0 < l" using greedy_pos[OF _ g] assms(3) by simp
  have b: "backward_scan s t i (int e) j = (int e + 1 - int l, - 1)"
    using backward_scan_greedy[OF j(1,2), of "int e" s i] assms(1,2) g
    unfolding tk ne by simp
  define k where "k = Suc e - l"
  have k: "i \<le> k" "k \<le> e" "int e + 1 - int l = int k" "Suc e - k = l" "k \<le> Suc e"
    using ll l0 assms(1) by (simp_all add: k_def)
  have "subseq (rev t) (take l (rev (win s i (Suc e))))"
    using greedy_sound[OF g] by simp
  then have "subseq (rev t) (rev (win s k (Suc e)))"
    using rev_win_take[OF k(1) k(5), of s] assms(2) k(4) by simp
  then have sk: "subseq t (win s k (Suc e))" by (simp add: subseq_rev_iff)
  have mx: "a \<le> k" if "i \<le> a" "a \<le> Suc e" "subseq t (win s a (Suc e))" for a
  proof -
    have "subseq (rev t) (rev (win s a (Suc e)))" using that(3) by (simp add: subseq_rev_iff)
    then have "subseq (rev t) (take (Suc e - a) (rev (win s i (Suc e))))"
      using rev_win_take[OF that(1,2), of s] assms(2) by simp
    then obtain l2 where "greedy (rev t) (rev (win s i (Suc e))) = Some l2" "l2 \<le> Suc e - a"
      using greedy_least by blast
    then have "l \<le> Suc e - a" using g by simp
    then show ?thesis using that(2) l0 by (simp add: k_def)
  qed
  show ?thesis using b k(1,2,3) sk mx unfolding j_def by auto
qed

lemma backward_after_forward:
  assumes "i < length s" "t \<noteq> []" "snd (forward_scan s t i 0) = length t"
  shows "int i \<le> fst (backward_scan s t i (int (fst (forward_scan s t i 0))) (int (length t) - 1))"
proof -
  obtain e where e: "fst (forward_scan s t i 0) = e" "i \<le> e" "e < length s"
      "subseq t (win s i (Suc e))"
    using forward_success[of i s t] assms by auto
  obtain k where "backward_scan s t i (int e) (int (length t) - 1) = (int k, - 1)" "i \<le> k"
    using backward_success[OF e(2,3) assms(2) e(4)] by blast
  then show ?thesis using e(1) by simp
qed

text \<open>
  The outer loop of lines 71-96 on \<^verbatim>\<open>i\<close> and the pair \<^verbatim>\<open>(min_len, start_idx)\<close>.  \<^verbatim>\<open>t[0]\<close> raises
  IndexError when \<^verbatim>\<open>t\<close> is empty.  After a window was found, \<^verbatim>\<open>i = k\<close> and then \<^verbatim>\<open>i += 1\<close>.
\<close>


function window_loop ::
  "'a list \<Rightarrow> 'a list \<Rightarrow> nat \<Rightarrow> int option \<times> int \<Rightarrow> py_error + int option \<times> int" where
  "window_loop s t i st =
     (if i < length s then
        if t = [] then Inl IndexError
        else if s ! i = t ! 0 then
          (if snd (forward_scan s t i 0) = length t then
             window_loop s t
               (nat (fst (backward_scan s t i (int (fst (forward_scan s t i 0))) (int (length t) - 1)) + 1))
               (record_window (int (fst (forward_scan s t i 0)))
                  (fst (backward_scan s t i (int (fst (forward_scan s t i 0))) (int (length t) - 1)))
                  st)
           else window_loop s t (i + 1) st)
        else window_loop s t (i + 1) st
      else Inr st)"
  by pat_completeness auto
termination
proof (relation "measure (\<lambda>(s, t, i, st). length s - i)")
  show "wf (measure (\<lambda>(s, t, i, st). length s - i))" by simp
next
  fix s t :: "'a list" and i :: nat and st :: "int option \<times> int"
  assume a: "i < length s" "t \<noteq> []" "s ! i = t ! 0" "snd (forward_scan s t i 0) = length t"
  have "int i \<le> fst (backward_scan s t i (int (fst (forward_scan s t i 0))) (int (length t) - 1))"
    using backward_after_forward[OF a(1,2,4)] .
  then show "((s, t, nat (fst (backward_scan s t i (int (fst (forward_scan s t i 0))) (int (length t) - 1)) + 1),
               record_window (int (fst (forward_scan s t i 0)))
                 (fst (backward_scan s t i (int (fst (forward_scan s t i 0))) (int (length t) - 1))) st),
              s, t, i, st) \<in> measure (\<lambda>(s, t, i, st). length s - i)"
    using a(1) by simp
qed auto

declare window_loop.simps [simp del]

text \<open>
  The function, with line 98: the slice \<^verbatim>\<open>s[start_idx - 1 : start_idx + min_len]\<close>, or the empty
  string when nothing was recorded.  A slice bound that is not an integer raises TypeError.
\<close>


definition min_window_subsequence :: "'a list \<Rightarrow> 'a list \<Rightarrow> py_error + 'a list" where
  "min_window_subsequence s t =
     (case window_loop s t 0 (None, - 1) of
        Inl err \<Rightarrow> Inl err
      | Inr (min_len, start_idx) \<Rightarrow>
          if start_idx \<noteq> - 1 then
            (case min_len of
               None \<Rightarrow> Inl TypeError
             | Some ml \<Rightarrow> Inr (py_slice s (start_idx - 1) (start_idx + ml)))
          else Inr [])"

section \<open>Text normalisation (utils.py)\<close>

text \<open>
  The pattern \<^verbatim>\<open>\s\<close> of a Python 3 \<^verbatim>\<open>str\<close> pattern and \<^verbatim>\<open>str.strip()\<close> use the same test,
  \<^verbatim>\<open>str.isspace\<close>: the ASCII characters TAB, LF, VT, FF, CR, FS, GS, RS, US and SPACE, and
  U+0085, U+00A0, U+1680, U+2000 to U+200A, U+2028, U+2029, U+202F, U+205F, U+3000.  The test
  belongs to the language, not to the repository.
\<close>

definition py_isspace :: "nat \<Rightarrow> bool" where
  "py_isspace c \<longleftrightarrow>
     (9 \<le> c \<and> c \<le> 13) \<or> (28 \<le> c \<and> c \<le> 32) \<or> c = 0x85 \<or> c = 0xA0 \<or> c = 0x1680 \<or>
     (0x2000 \<le> c \<and> c \<le> 0x200A) \<or> c = 0x2028 \<or> c = 0x2029 \<or> c = 0x202F \<or>
     c = 0x205F \<or> c = 0x3000"

text \<open>\<^verbatim>\<open>re.sub(r"\s+", " ", s)\<close>: every maximal run of whitespace becomes one ASCII space.\<close>

function sub_ws :: "pystr \<Rightarrow> pystr" where
  "sub_ws [] = []"
| "sub_ws (c # cs) =
     (if py_isspace c then 32 # sub_ws (dropWhile py_isspace cs) else c # sub_ws cs)"
  by pat_completeness auto
termination
  by (relation "measure length") (auto simp: less_Suc_eq_le length_dropWhile_le)

text \<open>\<^verbatim>\<open>s.strip()\<close>: leading and trailing whitespace removed.\<close>

definition py_strip :: "pystr \<Rightarrow> pystr" where
  "py_strip s = rev (dropWhile py_isspace (rev (dropWhile py_isspace s)))"

definition normalize_str :: "pystr \<Rightarrow> pystr" where
  "normalize_str s = py_strip (sub_ws s)"

text \<open>The characters listed in lines 37-58 of utils.py, and the substitution of line 62.\<close>

definition unicode_whitespace :: "nat list" where
  "unicode_whitespace =
     [0xA0, 0x1680, 0x180E, 0x2000, 0x2001, 0x2002, 0x2003, 0x2004, 0x2005, 0x2006, 0x2007,
      0x2008, 0x2009, 0x200A, 0x202F, 0x205F, 0x3000, 0xFEFF]"

definition normalize_whitespace :: "pystr \<Rightarrow> pystr" where
  "normalize_whitespace s = map (\<lambda>c. if c \<in> set unicode_whitespace then 32 else c) s"

text \<open>
  Two strings that differ only in the length or the class of their whitespace runs, for a
  given test \<open>ws\<close> of what whitespace is: they are built from the same characters that are not
  whitespace, with a nonempty run of whitespace in the one wherever the other has one.
\<close>

inductive same_up_to_ws :: "(nat \<Rightarrow> bool) \<Rightarrow> pystr \<Rightarrow> pystr \<Rightarrow> bool" for ws where
  same_nil: "same_up_to_ws ws [] []"
| same_char: "\<not> ws c \<Longrightarrow> same_up_to_ws ws u v \<Longrightarrow> same_up_to_ws ws (c # u) (c # v)"
| same_run: "a \<noteq> [] \<Longrightarrow> b \<noteq> [] \<Longrightarrow> list_all ws a \<Longrightarrow> list_all ws b \<Longrightarrow>
     same_up_to_ws ws u v \<Longrightarrow> same_up_to_ws ws (a @ u) (b @ v)"

text \<open>
  Whitespace as the specification of the normaliser lists it: what \<^verbatim>\<open>\s\<close> matches, and the
  zero-width and byte-order-mark characters of \<open>unicode_whitespace\<close>.
\<close>

definition listed_whitespace :: "nat \<Rightarrow> bool" where
  "listed_whitespace c \<longleftrightarrow> py_isspace c \<or> c \<in> set unicode_whitespace"

text \<open>
  A string in which whitespace occurs only as single ASCII spaces between other characters.
\<close>

fun single_spaced :: "pystr \<Rightarrow> bool" where
  "single_spaced [] = True"
| "single_spaced [c] = (\<not> py_isspace c \<or> c = 32)"
| "single_spaced (c # d # r) =
     ((\<not> py_isspace c \<or> (c = 32 \<and> \<not> py_isspace d)) \<and> single_spaced (d # r))"

text \<open>A string with no whitespace at either end.\<close>

definition trimmed :: "pystr \<Rightarrow> bool" where
  "trimmed u \<longleftrightarrow> u = [] \<or> (\<not> py_isspace (hd u) \<and> \<not> py_isspace (last u))"

text \<open>
  The specification's reading of the normaliser: the words of a string are its maximal runs
  of characters that are not whitespace, in their order (what \<^verbatim>\<open>s.split()\<close> returns); replacing
  each whitespace run by one ASCII space and trimming gives the words joined by single spaces.
\<close>

function ws_words :: "pystr \<Rightarrow> pystr list" where
  "ws_words s =
     (case dropWhile py_isspace s of
        [] \<Rightarrow> []
      | c # r \<Rightarrow>
          takeWhile (\<lambda>x. \<not> py_isspace x) (c # r) #
          ws_words (dropWhile (\<lambda>x. \<not> py_isspace x) (c # r)))"
  by pat_completeness auto
termination
proof (relation "measure length")
  show "wf (measure length)" by simp
next
  fix s :: pystr and c r
  assume a: "dropWhile py_isspace s = c # r"
  have c: "\<not> py_isspace c" using hd_dropWhile[of py_isspace s] a by simp
  have "dropWhile (\<lambda>x. \<not> py_isspace x) (c # r) = dropWhile (\<lambda>x. \<not> py_isspace x) r"
    using c by simp
  moreover have "length (dropWhile (\<lambda>x. \<not> py_isspace x) r) \<le> length r"
    by (rule length_dropWhile_le)
  ultimately have "length (dropWhile (\<lambda>x. \<not> py_isspace x) (c # r)) < length (c # r)" by simp
  moreover have "length (c # r) \<le> length s" using length_dropWhile_le[of py_isspace s] a by simp
  ultimately show "(dropWhile (\<lambda>x. \<not> py_isspace x) (c # r), s) \<in> measure length" by simp
qed

declare ws_words.simps [simp del]

text \<open>A space at the end of the collapsed text, when the text ends in whitespace.\<close>

definition trailing_sp :: "pystr \<Rightarrow> pystr" where
  "trailing_sp t = (if t \<noteq> [] \<and> py_isspace (last t) then [32] else [])"

section \<open>The span locator (re\_kindle.py, find\_text\_spans)\<close>

text \<open>
  \<^verbatim>\<open>s.find(sub)\<close>: the lowest index at which \<^verbatim>\<open>sub\<close> occurs in \<^verbatim>\<open>s\<close>; Python's \<open>-1\<close> is
  \<open>None\<close>.  \<^verbatim>\<open>sub in s\<close> is the same search.
\<close>

fun py_find :: "'a list \<Rightarrow> 'a list \<Rightarrow> nat option" where
  "py_find [] sub = (if sub = [] then Some 0 else None)"
| "py_find (c # cs) sub =
     (if prefix sub (c # cs) then Some 0 else map_option Suc (py_find cs sub))"

definition py_in :: "'a list \<Rightarrow> 'a list \<Rightarrow> bool" where
  "py_in sub s \<longleftrightarrow> py_find s sub \<noteq> None"

text \<open>
  The loop of lines 105-113 over the normalised texts: a space is appended only when
  \<^verbatim>\<open>combined\<close> is not empty, then the text; the span of the text is recorded.
\<close>

fun build_spans :: "pystr list \<Rightarrow> pystr \<Rightarrow> (nat \<times> nat) list \<Rightarrow> pystr \<times> (nat \<times> nat) list" where
  "build_spans [] combined spans = (combined, spans)"
| "build_spans (text # rest) combined spans =
     (let combined1 = (if combined \<noteq> [] then combined @ [32] else combined);
          start = length combined1;
          combined2 = combined1 @ text;
          end = length combined2
      in build_spans rest combined2 (spans @ [(start, end)]))"

text \<open>
  The loop of lines 121-127 over \<^verbatim>\<open>enumerate(spans)\<close>, from index \<open>i\<close>: \<^verbatim>\<open>continue\<close> on a span
  that ends at or before \<^verbatim>\<open>start_pos\<close>, \<^verbatim>\<open>break\<close> on the first span that starts at or after
  \<^verbatim>\<open>end_pos\<close>.
\<close>

fun collect_matched :: "(nat \<times> nat) list \<Rightarrow> nat \<Rightarrow> nat \<Rightarrow> nat \<Rightarrow> nat list \<Rightarrow> nat list" where
  "collect_matched [] i start_pos end_pos matched_indices = matched_indices"
| "collect_matched ((start, end) # rest) i start_pos end_pos matched_indices =
     (if end \<le> start_pos then collect_matched rest (i + 1) start_pos end_pos matched_indices
      else if start \<ge> end_pos then matched_indices
      else collect_matched rest (i + 1) start_pos end_pos (matched_indices @ [i]))"

text \<open>
  \<open>find_text_spans\<close> on the texts of the elements (\<^verbatim>\<open>el.get_text()\<close> for each element) and the
  query.  \<open>None\<close> is Python's \<^verbatim>\<open>None\<close>.
\<close>

definition find_text_spans :: "pystr list \<Rightarrow> pystr \<Rightarrow> nat list option" where
  "find_text_spans element_texts query =
     (let norm_query = normalize_str query;
          full_texts = map normalize_str element_texts;
          combined = fst (build_spans full_texts [] []);
          spans = snd (build_spans full_texts [] [])
      in case py_find combined norm_query of
           None \<Rightarrow> None
         | Some start_pos \<Rightarrow>
             Some (collect_matched spans 0 start_pos (start_pos + length norm_query) []))"


fun join_sp :: "pystr list \<Rightarrow> pystr" where
  "join_sp [] = []"
| "join_sp [x] = x"
| "join_sp (x # y # r) = x @ 32 # join_sp (y # r)"


text \<open>The text and the spans that lines 105-113 build from nothing.\<close>

definition combined_of :: "pystr list \<Rightarrow> pystr" where
  "combined_of ts = fst (build_spans ts [] [])"

definition spans_of :: "pystr list \<Rightarrow> (nat \<times> nat) list" where
  "spans_of ts = snd (build_spans ts [] [])"

section \<open>The tag injector (utils.py, create\_highlighted\_tags)\<close>

definition HIGHLIGHT_HEAD :: pystr where
  \<open>HIGHLIGHT_HEAD = str ''<mark style="background-color: yellow;">''\<close>

definition HIGHLIGHT_TAIL :: pystr where
  "HIGHLIGHT_TAIL = str ''</mark>''"

text \<open>
  The pattern \<^verbatim>\<open>(</p>|<p[^>]*>)\<close> at the head of a string: the length of its match, if it
  matches there.  The second alternative runs to the first \<^verbatim>\<open>>\<close> after \<^verbatim>\<open><p\<close>.
\<close>

definition match_par :: "pystr \<Rightarrow> nat option" where
  "match_par cs =
     (if prefix (str ''</p>'') cs then Some 4
      else if prefix (str ''<p'') cs then
        (let inside = takeWhile (\<lambda>c. c \<noteq> 62) (drop 2 cs) in
         if length inside < length (drop 2 cs) then Some (2 + length inside + 1) else None)
      else None)"

text \<open>
  \<^verbatim>\<open>re.split(pattern, html)\<close> with the one capturing group: the texts between the matches,
  found from left to right, and the matches between them.  \<open>cur\<close> is the text since the last
  match.
\<close>

function re_split :: "pystr \<Rightarrow> pystr \<Rightarrow> pystr list" where
  "re_split cur [] = [cur]"
| "re_split cur (c # cs) =
     (case match_par (c # cs) of
        Some n \<Rightarrow> cur # take n (c # cs) # re_split [] (drop n (c # cs))
      | None \<Rightarrow> re_split (cur @ [c]) cs)"
  by pat_completeness auto
termination
  by (relation "measure (\<lambda>(cur, cs). length cs)")
     (auto simp: match_par_def Let_def split: if_splits)

text \<open>Lines 109-116: the parts that are not blank.\<close>

definition split_raw_html_on_pars :: "pystr \<Rightarrow> pystr list" where
  "split_raw_html_on_pars html = filter (\<lambda>part. py_strip part \<noteq> []) (re_split [] html)"

text \<open>
  \<^verbatim>\<open>prefix, suffix = a.split(b)\<close>: \<^verbatim>\<open>split\<close> raises ValueError on an empty separator, and the
  unpacking raises ValueError unless there are two parts, that is unless \<^verbatim>\<open>b\<close> occurs in
  \<^verbatim>\<open>a\<close> once.
\<close>

definition split_in_two :: "pystr \<Rightarrow> pystr \<Rightarrow> py_error + pystr \<times> pystr" where
  "split_in_two a b =
     (if b = [] then Inl ValueError
      else case py_find a b of
             None \<Rightarrow> Inl ValueError
           | Some i \<Rightarrow>
               (let rest = drop (i + length b) a in
                case py_find rest b of
                  Some _ \<Rightarrow> Inl ValueError
                | None \<Rightarrow> Inr (take i a, rest)))"

text \<open>The body of the loop of lines 124-134 at index \<open>i\<close>.\<close>

definition to_insert_step :: "pystr list \<Rightarrow> (nat \<times> pystr) list \<Rightarrow> nat \<Rightarrow> (nat \<times> pystr) list" where
  "to_insert_step html_tags to_insert i =
     (let part = html_tags ! i in
      if i = 0 then
        (if prefix (str ''<p'') part \<or> prefix (str ''</p>'') part then to_insert
         else to_insert @ [(i, HIGHLIGHT_HEAD)])
      else if prefix (str ''</p>'') part then to_insert @ [(i, HIGHLIGHT_TAIL)]
      else if prefix (str ''<p'') part \<and> suffix (str ''</p>'') (html_tags ! (i - 1))
        then to_insert @ [(i + 1, HIGHLIGHT_HEAD)]
      else to_insert)"

text \<open>
  Lines 123-136.  \<^verbatim>\<open>html_tags[-1]\<close> raises IndexError on an empty list.
\<close>

definition compute_to_insert :: "pystr list \<Rightarrow> py_error + (nat \<times> pystr) list" where
  "compute_to_insert html_tags =
     (let to_insert = foldl (to_insert_step html_tags) [] [0..<length html_tags] in
      if html_tags = [] then Inl IndexError
      else if \<not> (prefix (str ''</p'') (last html_tags) \<or> prefix (str ''<p'') (last html_tags))
        then Inr (to_insert @ [(length html_tags, HIGHLIGHT_TAIL)])
      else Inr to_insert)"

definition head_count :: "(nat \<times> pystr) list \<Rightarrow> nat" where
  "head_count to_insert = length (filter (\<lambda>x. snd x = HIGHLIGHT_HEAD) to_insert)"

definition tail_count :: "(nat \<times> pystr) list \<Rightarrow> nat" where
  "tail_count to_insert = length (filter (\<lambda>x. snd x = HIGHLIGHT_TAIL) to_insert)"

text \<open>
  Lines 144-145: \<^verbatim>\<open>html_tags.insert(offset + i, tag)\<close> for each entry; an index past the end
  appends.
\<close>

fun insert_all :: "(nat \<times> pystr) list \<Rightarrow> nat \<Rightarrow> pystr list \<Rightarrow> pystr list" where
  "insert_all [] offset html_tags = html_tags"
| "insert_all ((i, tag) # rest) offset html_tags =
     insert_all rest (offset + 1)
       (take (offset + i) html_tags @ tag # drop (offset + i) html_tags)"

definition note_tag :: "pystr \<Rightarrow> pystr" where
  \<open>note_tag n =
     str ''<span class="note" style="color: gray; font-style: italic; font-size: 90%;"> [R.N.: ''
       @ n @ str ''] </span>''\<close>

text \<open>
  The function on the fields of the match it reads: \<^verbatim>\<open>all_tag_str\<close>, \<^verbatim>\<open>pre_highlight\<close> and
  \<^verbatim>\<open>clip.note\<close>.  The result is the markup of line 151 that is handed to the parser,
  \<^verbatim>\<open>prefix + "".join(html_tags) + suffix\<close>; the parsing itself belongs to the library.
\<close>

definition inject_tags :: "pystr \<Rightarrow> pystr \<Rightarrow> pystr option \<Rightarrow> py_error + pystr" where
  "inject_tags all_tag_str pre_highlight clip_note_opt =
     (case split_in_two all_tag_str pre_highlight of
        Inl err \<Rightarrow> Inl err
      | Inr (pre, suf) \<Rightarrow>
          (let html_tags = split_raw_html_on_pars pre_highlight in
           case compute_to_insert html_tags of
             Inl err \<Rightarrow> Inl err
           | Inr to_insert \<Rightarrow>
               if head_count to_insert \<noteq> tail_count to_insert then Inl AssertionError
               else
                 (let html_tags1 = insert_all to_insert 0 html_tags;
                      html_tags2 =
                        (case clip_note_opt of
                           None \<Rightarrow> html_tags1
                         | Some n \<Rightarrow> if n = [] then html_tags1 else html_tags1 @ [note_tag n])
                  in Inr (pre @ concat html_tags2 @ suf))))"

section \<open>The orchestrator (re\_kindle.py)\<close>

text \<open>
  What the code reads of a parsed document: \<^verbatim>\<open>soup.get_text()\<close> and, for each element of
  \<^verbatim>\<open>soup.find_all("p")\<close>, its \<^verbatim>\<open>get_text()\<close> and its markup \<^verbatim>\<open>str(p)\<close>.  Parsing belongs to
  the library.
\<close>

record par =
  par_text :: pystr
  par_str :: pystr

record document =
  doc_text :: pystr
  doc_pars :: "par list"

record match =
  match_clip :: clipping
  spine_ix :: nat
  matched_tag_indices :: "nat list"
  all_tag_str :: pystr
  pre_highlight :: pystr

definition create_highlighted_tags :: "match \<Rightarrow> py_error + pystr" where
  "create_highlighted_tags m =
     inject_tags (all_tag_str m) (pre_highlight m) (clip_note (match_clip m))"

text \<open>\<^verbatim>\<open>"".join(x.split(" "))\<close>: the string without its ASCII spaces.\<close>

definition nospace :: "pystr \<Rightarrow> pystr" where
  "nospace x = filter (\<lambda>c. c \<noteq> 32) x"

text \<open>
  The loop of \<open>find_clip_in_spine\<close> over \<^verbatim>\<open>spine[start_from:]\<close>; \<open>item_ix\<close> is
  \<^verbatim>\<open>start_from + item_offset\<close>.  Every path of the loop body that enters the \<^verbatim>\<open>if\<close> returns.
\<close>

fun find_clip_from :: "clipping \<Rightarrow> document list \<Rightarrow> nat \<Rightarrow> py_error + match option" where
  "find_clip_from clip [] item_ix = Inr None"
| "find_clip_from clip (item # rest) item_ix =
     (let nospace_clip = nospace (clip_content clip);
          clean_soup = normalize_str (doc_text item);
          nospace_soup = nospace clean_soup
      in if py_in nospace_clip nospace_soup then
           (case find_text_spans (map par_text (doc_pars item)) (clip_content clip) of
              None \<Rightarrow> Inr None
            | Some matched \<Rightarrow>
                (let tag_str = normalize_whitespace
                       (concat (map (\<lambda>i. par_str (doc_pars item ! i)) matched))
                 in case min_window_subsequence tag_str nospace_clip of
                      Inl err \<Rightarrow> Inl err
                    | Inr window \<Rightarrow>
                        Inr (Some \<lparr>match_clip = clip, spine_ix = item_ix,
                                   matched_tag_indices = matched, all_tag_str = tag_str,
                                   pre_highlight = window\<rparr>)))
         else find_clip_from clip rest (item_ix + 1))"

definition find_clip_in_spine :: "clipping \<Rightarrow> document list \<Rightarrow> nat \<Rightarrow> py_error + match option" where
  "find_clip_in_spine clip spine start_from = find_clip_from clip (drop start_from spine) start_from"

text \<open>
  The log of \<open>find_matches\<close>: the normalised content, and for a match the position of the
  document, which stands for its file name.
\<close>

datatype match_log = Found pystr nat | Not_found pystr

fun find_matches_loop ::
  "clipping list \<Rightarrow> document list \<Rightarrow> match list \<times> match_log list \<Rightarrow>
   py_error + match list \<times> match_log list" where
  "find_matches_loop [] spine (matches, log) = Inr (matches, log)"
| "find_matches_loop (clip # rest) spine (matches, log) =
     (let clip_content_n = normalize_str (clip_content clip) in
      case find_clip_in_spine clip spine 0 of
        Inl err \<Rightarrow> Inl err
      | Inr None \<Rightarrow> find_matches_loop rest spine (matches, log @ [Not_found clip_content_n])
      | Inr (Some m) \<Rightarrow>
          find_matches_loop rest spine (matches @ [m], log @ [Found clip_content_n (spine_ix m)]))"

definition find_matches :: "clipping list \<Rightarrow> document list \<Rightarrow> py_error + match list \<times> match_log list" where
  "find_matches clippings spine = find_matches_loop clippings spine ([], [])"

text \<open>
  A call of a Python function whose parameters have no defaults: it binds when the positional
  arguments fit, every keyword names a parameter that is still free and is given once, and
  no parameter stays unbound; otherwise it raises TypeError.
\<close>

definition py_bind :: "string list \<Rightarrow> nat \<Rightarrow> string list \<Rightarrow> bool" where
  "py_bind params n_positional keywords \<longleftrightarrow>
     n_positional \<le> length params \<and> distinct keywords \<and>
     list_all (\<lambda>k. k \<in> set (drop n_positional params)) keywords \<and>
     list_all (\<lambda>p. p \<in> set keywords) (drop n_positional params)"

text \<open>\<^verbatim>\<open>def create_highlighted_tags(match)\<close>, line 119 of utils.py.\<close>

definition create_highlighted_tags_params :: "string list" where
  "create_highlighted_tags_params = [''match'']"

text \<open>
  The call of line 249 of re\_kindle.py:
  \<^verbatim>\<open>utils.create_highlighted_tags(match, highlight_color=highlight_color)\<close>.
\<close>

definition call_create_highlighted_tags :: "match \<Rightarrow> py_error + pystr" where
  "call_create_highlighted_tags m =
     (if py_bind create_highlighted_tags_params 1 [''highlight_color'']
      then create_highlighted_tags m else Inl TypeError)"

text \<open>
  Lines 251-252 of re\_kindle.py: for \<open>ix\<close> and \<open>orig_ix\<close> enumerating
  \<^verbatim>\<open>match.matched_tag_indices\<close>, \<^verbatim>\<open>pars[orig_ix].replace_with(new_tags[ix])\<close>.  Either index out
  of range raises IndexError.  \<open>pars\<close> are the blocks of the document, and replacing a block puts
  the new one in its place.
\<close>

fun replace_blocks :: "par list \<Rightarrow> par list \<Rightarrow> nat list \<Rightarrow> nat \<Rightarrow> py_error + par list" where
  "replace_blocks pars new_tags [] ix = Inr pars"
| "replace_blocks pars new_tags (orig_ix # rest) ix =
     (if orig_ix < length pars \<and> ix < length new_tags
      then replace_blocks (pars[orig_ix := new_tags ! ix]) new_tags rest (ix + 1)
      else Inl IndexError)"

text \<open>
  The loop of lines 245-254 over the matches.  Its state is the blocks of each document of the
  spine, which is all that the loop reads of a document.  For each match: \<^verbatim>\<open>spine[match.spine_ix]\<close>
  raises IndexError out of range; the document is parsed again; the injector is called as in
  line 249; the blocks are replaced; and the content of the document is set.  No exception is
  caught.  The injector ends by parsing the markup it has built and returning its
  \<^verbatim>\<open><p>\<close> elements (lines 151-154 of utils.py); this parser belongs to the library and is the
  parameter \<open>parse_p\<close>.
\<close>

fun apply_highlights ::
  "(pystr \<Rightarrow> par list) \<Rightarrow> match list \<Rightarrow> par list list \<Rightarrow> py_error + par list list" where
  "apply_highlights parse_p [] blocks = Inr blocks"
| "apply_highlights parse_p (m # rest) blocks =
     (if spine_ix m < length blocks then
        (let pars = blocks ! spine_ix m in
         case call_create_highlighted_tags m of
           Inl err \<Rightarrow> Inl err
         | Inr markup \<Rightarrow>
             (case replace_blocks pars (parse_p markup) (matched_tag_indices m) 0 of
                Inl err \<Rightarrow> Inl err
              | Inr pars' \<Rightarrow> apply_highlights parse_p rest (blocks[spine_ix m := pars'])))
      else Inl IndexError)"

text \<open>
  \<open>process_book\<close> from the parsed clippings and documents on: the matches, the loop, and the
  summary of line 261, \<^verbatim>\<open>len(matches)\<close> and \<^verbatim>\<open>len(clippings)\<close>, with the blocks of the documents
  that are written back.
\<close>

definition process_book ::
  "(pystr \<Rightarrow> par list) \<Rightarrow> clipping list \<Rightarrow> document list \<Rightarrow>
   py_error + par list list \<times> nat \<times> nat" where
  "process_book parse_p clippings spine =
     (case find_matches clippings spine of
        Inl err \<Rightarrow> Inl err
      | Inr (matches, log) \<Rightarrow>
          (case apply_highlights parse_p matches (map doc_pars spine) of
             Inl err \<Rightarrow> Inl err
           | Inr blocks \<Rightarrow> Inr (blocks, length matches, length clippings)))"



text \<open>The log line of an annotation, and the annotations that are matched.\<close>

definition log_line_of :: "document list \<Rightarrow> clipping \<Rightarrow> match_log" where
  "log_line_of spine clip =
     (case find_clip_in_spine clip spine 0 of
        Inr (Some m) \<Rightarrow> Found (normalize_str (clip_content clip)) (spine_ix m)
      | _ \<Rightarrow> Not_found (normalize_str (clip_content clip)))"

definition is_matched :: "document list \<Rightarrow> clipping \<Rightarrow> bool" where
  "is_matched spine clip \<longleftrightarrow> (\<exists>m. find_clip_in_spine clip spine 0 = Inr (Some m))"

section \<open>Inputs of the examples\<close>

text \<open>
  A highlight with the given content, and four documents as the parser reads them: one with
  the paragraphs \<^verbatim>\<open><p>x &gt;</p><p>p</p>\<close>, one with the paragraph \<^verbatim>\<open><p>a &lt; b</p>\<close>, and two
  with the paragraphs \<^verbatim>\<open><p>ab cd</p>\<close> and \<^verbatim>\<open><p>a bcd</p>\<close>.
\<close>

definition highlight_of :: "pystr \<Rightarrow> clipping" where
  "highlight_of c = \<lparr>clip_title = str ''Book'', clip_type = Highlight, clip_location = Range 1 5,
     clip_date = Some 1, clip_color = None, clip_note = None, clip_content = c\<rparr>"

definition doc_gt :: document where
  "doc_gt = \<lparr>doc_text = str ''x >p'',
     doc_pars = [\<lparr>par_text = str ''x >'', par_str = str ''<p>x &gt;</p>''\<rparr>,
                 \<lparr>par_text = str ''p'', par_str = str ''<p>p</p>''\<rparr>]\<rparr>"




section \<open>Properties of note attachment\<close>

lemma attach_note_snoc:
  "attach_note n (cs @ [c]) =
     (if qualifies c n then cs @ [c\<lparr>clip_note := Some (clip_content n)\<rparr>]
      else attach_note n cs @ [c])"
  by (simp add: attach_note_def)

lemma length_attach_note [simp]: "length (attach_note n cs) = length cs"
  by (induction cs rule: rev_induct) (simp_all add: attach_note_snoc attach_note_def)

lemma attach_note_none:
  "\<forall>j<length cs. \<not> qualifies (cs ! j) n \<Longrightarrow> attach_note n cs = cs"
proof (induction cs rule: rev_induct)
  case Nil
  then show ?case by (simp add: attach_note_def)
next
  case (snoc c cs)
  have "\<not> qualifies c n" using snoc.prems[rule_format, of "length cs"] by simp
  moreover have "\<forall>j<length cs. \<not> qualifies (cs ! j) n"
  proof (intro allI impI)
    fix j assume "j < length cs"
    then show "\<not> qualifies (cs ! j) n"
      using snoc.prems[rule_format, of j] by (simp add: nth_append)
  qed
  ultimately show ?case using snoc.IH by (simp add: attach_note_snoc)
qed

lemma attach_note_last:
  "i < length cs \<Longrightarrow> qualifies (cs ! i) n \<Longrightarrow>
   \<forall>j<length cs. qualifies (cs ! j) n \<longrightarrow> j \<le> i \<Longrightarrow>
   attach_note n cs = cs[i := (cs ! i)\<lparr>clip_note := Some (clip_content n)\<rparr>]"
proof (induction cs rule: rev_induct)
  case Nil
  then show ?case by simp
next
  case (snoc c cs)
  show ?case
  proof (cases "qualifies c n")
    case True
    then have "length cs \<le> i" using snoc.prems(3)[rule_format, of "length cs"] by simp
    with snoc.prems(1) have "i = length cs" by simp
    with True show ?thesis by (simp add: attach_note_snoc)
  next
    case False
    with snoc.prems(1,2) have i: "i < length cs"
      by (cases "i = length cs") (auto simp: nth_append)
    have q: "qualifies (cs ! i) n" using snoc.prems(2) i by (simp add: nth_append)
    have m: "\<forall>j<length cs. qualifies (cs ! j) n \<longrightarrow> j \<le> i"
    proof (intro allI impI)
      fix j assume "j < length cs" "qualifies (cs ! j) n"
      then show "j \<le> i" using snoc.prems(3)[rule_format, of j] by (simp add: nth_append)
    qed
    show ?thesis using False snoc.IH[OF i q m] i
      by (simp add: attach_note_snoc list_update_append nth_append)
  qed
qed

lemma attach_note_frame:
  "map clip_title (attach_note n cs) = map clip_title cs \<and>
   map clip_location (attach_note n cs) = map clip_location cs"
  by (induction cs rule: rev_induct) (simp_all add: attach_note_snoc attach_note_def)

lemma attach_notes_snoc:
  "attach_notes (ns @ [n]) st =
     (attach_note n (fst (attach_notes ns st)), snd (attach_notes ns st) @ [warn_str n])"
  by (induction ns st rule: attach_notes.induct) simp_all

lemma attach_notes_frame:
  "length (fst (attach_notes ns (cs, log))) = length cs \<and>
   map clip_title (fst (attach_notes ns (cs, log))) = map clip_title cs \<and>
   map clip_location (fst (attach_notes ns (cs, log))) = map clip_location cs"
proof (induction ns arbitrary: cs log)
  case Nil
  then show ?case by simp
next
  case (Cons n ns)
  show ?case using Cons[of "attach_note n cs" "log @ [warn_str n]"] attach_note_frame[of n cs]
    by simp
qed

lemma qualifies_frame:
  assumes "map clip_title cs' = map clip_title cs" "map clip_location cs' = map clip_location cs"
    and "j < length cs"
  shows "qualifies (cs' ! j) n = qualifies (cs ! j) n"
proof -
  have l: "length cs' = length cs" using assms(1) by (metis length_map)
  have "clip_title (cs' ! j) = clip_title (cs ! j)"
    using assms(1,3) l by (metis nth_map)
  moreover have "clip_location (cs' ! j) = clip_location (cs ! j)"
    using assms(2,3) l by (metis nth_map)
  ultimately show ?thesis by (simp add: qualifies_def)
qed

lemma attach_notes_log:
  "snd (attach_notes ns (cs, log)) = log @ map warn_str ns"
  by (induction ns arbitrary: cs log) simp_all

text \<open>
  Claim C7.  With the highlights in ascending order of timestamp, a note that is processed after
  the older notes is attached to the qualifying highlight (same title, location end equal to the
  note's location) of greatest position, which is the most recent one: every other qualifying
  highlight stands before it and is not younger.  That highlight's note becomes the note's
  content and nothing else changes.
\<close>

theorem note_attaches_to_most_recent_qualifying_highlight:
  assumes asc: "ascending_by_date parsed_clips"
    and q: "\<exists>j<length parsed_clips. qualifies (parsed_clips ! j) n"
  shows "\<exists>i<length parsed_clips.
           qualifies (parsed_clips ! i) n \<and>
           (\<forall>j<length parsed_clips. qualifies (parsed_clips ! j) n \<longrightarrow>
                j = i \<or> (j < i \<and> date_le (parsed_clips ! j) (parsed_clips ! i))) \<and>
           fst (attach_notes (older @ [n]) (parsed_clips, log)) =
             (fst (attach_notes older (parsed_clips, log)))
               [i := (fst (attach_notes older (parsed_clips, log)) ! i)
                        \<lparr>clip_note := Some (clip_content n)\<rparr>]"
proof -
  define cs where "cs = fst (attach_notes older (parsed_clips, log))"
  have fr: "length cs = length parsed_clips"
    "map clip_title cs = map clip_title parsed_clips"
    "map clip_location cs = map clip_location parsed_clips"
    using attach_notes_frame[of older parsed_clips log] by (simp_all add: cs_def)
  define Q where "Q = {j. j < length parsed_clips \<and> qualifies (parsed_clips ! j) n}"
  have fin: "finite Q" and ne: "Q \<noteq> {}" using q by (auto simp: Q_def)
  define i where "i = Max Q"
  have iQ: "i \<in> Q" unfolding i_def using fin ne by (rule Max_in)
  then have i: "i < length parsed_clips" and qi: "qualifies (parsed_clips ! i) n"
    by (simp_all add: Q_def)
  have mx: "j \<le> i" if "j < length parsed_clips" "qualifies (parsed_clips ! j) n" for j
    unfolding i_def using fin that by (intro Max_ge) (simp_all add: Q_def)
  have dt: "date_le (parsed_clips ! j) (parsed_clips ! i)" if "j < i" for j
    using asc that i by (simp add: ascending_by_date_def sorted_wrt_iff_nth_less)
  have "attach_note n cs = cs[i := (cs ! i)\<lparr>clip_note := Some (clip_content n)\<rparr>]"
  proof (rule attach_note_last)
    show "i < length cs" using i fr by simp
    show "qualifies (cs ! i) n" using qualifies_frame[OF fr(2,3) i] qi by simp
    show "\<forall>j<length cs. qualifies (cs ! j) n \<longrightarrow> j \<le> i"
      using qualifies_frame[OF fr(2,3)] mx fr(1) by simp
  qed
  then have "fst (attach_notes (older @ [n]) (parsed_clips, log)) =
      cs[i := (cs ! i)\<lparr>clip_note := Some (clip_content n)\<rparr>]"
    by (simp add: attach_notes_snoc cs_def)
  moreover have "\<forall>j<length parsed_clips. qualifies (parsed_clips ! j) n \<longrightarrow>
                j = i \<or> (j < i \<and> date_le (parsed_clips ! j) (parsed_clips ! i))"
    using mx dt by (metis le_neq_implies_less)
  ultimately show ?thesis using i qi unfolding cs_def by blast
qed

text \<open>
  The example of the specification: two qualifying highlights with timestamps 1 and 2 and a note
  with timestamp 3; the note goes to the highlight of timestamp 2.
\<close>

theorem note_attaches_witness:
  "ascending_by_date [hl 1, hl 2] \<and>
   (\<exists>j<length [hl 1, hl 2]. qualifies ([hl 1, hl 2] ! j) (nt 3)) \<and>
   fst (attach_notes ([] @ [nt 3]) ([hl 1, hl 2], [])) =
     [hl 1, (hl 2)\<lparr>clip_note := Some (str ''remark'')\<rparr>]"
proof -
  have a: "ascending_by_date [hl 1, hl 2]"
    by (simp add: ascending_by_date_def date_le_def hl_def)
  have q0: "qualifies (hl 1) (nt 3)" and q1: "qualifies (hl 2) (nt 3)"
    by (simp_all add: qualifies_def hl_def nt_def)
  have q: "\<exists>j<length [hl 1, hl 2]. qualifies ([hl 1, hl 2] ! j) (nt 3)"
    using q0 by auto
  obtain i where i: "i < length [hl 1, hl 2]"
    and mx: "\<forall>j<length [hl 1, hl 2]. qualifies ([hl 1, hl 2] ! j) (nt 3) \<longrightarrow>
                j = i \<or> (j < i \<and> date_le ([hl 1, hl 2] ! j) ([hl 1, hl 2] ! i))"
    and r: "fst (attach_notes ([] @ [nt 3]) ([hl 1, hl 2], [])) =
             (fst (attach_notes [] ([hl 1, hl 2], [])))
               [i := (fst (attach_notes [] ([hl 1, hl 2], [])) ! i)
                        \<lparr>clip_note := Some (clip_content (nt 3))\<rparr>]"
    using note_attaches_to_most_recent_qualifying_highlight[OF a q, of "[]" "[]"] by blast
  have "1 = i \<or> 1 < i" using mx[rule_format, of 1] q1 by auto
  with i have "i = 1" by simp
  with r have "fst (attach_notes ([] @ [nt 3]) ([hl 1, hl 2], [])) =
     [hl 1, (hl 2)\<lparr>clip_note := Some (str ''remark'')\<rparr>]"
    by (simp add: nt_def)
  with a q show ?thesis by blast
qed

text \<open>
  Claim C8.  A note is to be logged as unmatched exactly when no highlight qualifies.  On one
  highlight at location 1-5 and one note at location 5 of the same title, the loop attaches the
  note to the highlight and still logs it as one that could not be matched.
\<close>

theorem matched_note_is_logged_as_unmatched:
  "attach_notes [nt 3] ([hl 1], []) =
     ([(hl 1)\<lparr>clip_note := Some (str ''remark'')\<rparr>],
      [Could_not_be_matched (str ''remark'') (Single 5)])"
  by (simp add: attach_note_def qualifies_def hl_def nt_def warn_str_def)

lemma ordered_by_location_iff:
  "ordered_by_location cs \<longleftrightarrow>
     \<not> (\<exists>ix. 0 < ix \<and> ix < length cs \<and>
            loc_first (clip_location (cs ! ix)) < loc_first (clip_location (cs ! (ix - 1))))"
proof -
  have "ordered_by_location cs \<longleftrightarrow>
          (\<forall>ix. 0 < ix \<and> ix < length cs \<longrightarrow>
             loc_first (clip_location (cs ! (ix - 1))) \<le> loc_first (clip_location (cs ! ix)))"
    unfolding ordered_by_location_def list_all_iff by (auto simp: Suc_le_eq)
  then show ?thesis by (metis not_less)
qed

lemma attach_prev_length [simp]: "length (attach_prev ks cs) = length cs"
  by (induction ks arbitrary: cs) simp_all

lemma attach_prev_nth:
  assumes "distinct ks" "\<forall>k\<in>set ks. 0 < k \<and> k < length cs" "i < length cs"
  shows "attach_prev ks cs ! i =
           (if Suc i \<in> set ks
            then (cs ! i)\<lparr>clip_note := Some (clip_content (cs ! Suc i))\<rparr>
            else cs ! i)"
  using assms
proof (induction ks arbitrary: cs)
  case Nil
  then show ?case by simp
next
  case (Cons k ks)
  define cs' where
    "cs' = cs[k - 1 := (cs ! (k - 1))\<lparr>clip_note := Some (clip_content (cs ! k))\<rparr>]"
  have k: "0 < k" "k < length cs" using Cons.prems(2) by simp_all
  have len: "length cs' = length cs" by (simp add: cs'_def)
  have content: "clip_content (cs' ! j) = clip_content (cs ! j)" if "j < length cs" for j
    using that by (cases "j = k - 1") (simp_all add: cs'_def)
  have IH: "attach_prev ks cs' ! i =
           (if Suc i \<in> set ks
            then (cs' ! i)\<lparr>clip_note := Some (clip_content (cs' ! Suc i))\<rparr>
            else cs' ! i)"
    using Cons.IH[of cs'] Cons.prems len by simp
  show ?case
  proof (cases "Suc i \<in> set ks")
    case True
    then have "Suc i \<noteq> k" using Cons.prems(1) by auto
    then have "cs' ! i = cs ! i" using k by (auto simp: cs'_def nth_list_update)
    moreover have "Suc i < length cs" using True Cons.prems(2) by auto
    ultimately show ?thesis using True IH content[of "Suc i"] by (simp add: cs'_def)
  next
    case False
    show ?thesis
    proof (cases "Suc i = k")
      case True
      then show ?thesis using False IH Cons.prems(3) by (auto simp: cs'_def)
    next
      case False2: False
      then have "cs' ! i = cs ! i" using k by (auto simp: cs'_def nth_list_update)
      then show ?thesis using False False2 IH by (simp add: cs'_def)
    qed
  qed
qed

lemma note_indices_props:
  "distinct (note_indices cs)"
  "set (note_indices cs) = {ix. ix < length cs \<and> clip_type (cs ! ix) = Note}"
  by (auto simp: note_indices_def)

lemma hd_note_indices:
  assumes "note_indices cs \<noteq> []"
  shows "hd (note_indices cs) > 0 \<longleftrightarrow> \<not> (cs \<noteq> [] \<and> clip_type (hd cs) = Note)"
proof (cases cs)
  case Nil
  then show ?thesis using assms by (simp add: note_indices_def)
next
  case (Cons c rest)
  have upt: "[0..<length cs] = 0 # [1..<length cs]" using Cons by (simp add: upt_rec)
  show ?thesis
  proof (cases "clip_type c = Note")
    case True
    then show ?thesis using Cons upt by (simp add: note_indices_def)
  next
    case False
    then have ni: "note_indices cs = filter (\<lambda>ix. clip_type (cs ! ix) = Note) [1..<length cs]"
      using Cons upt by (simp add: note_indices_def)
    have "hd (note_indices cs) \<in> set (note_indices cs)" using assms by simp
    then have "hd (note_indices cs) \<in> set [1..<length cs]" unfolding ni by auto
    then have "0 < hd (note_indices cs)" by simp
    then show ?thesis using False Cons by simp
  qed
qed

lemma parse_html_attach_unordered:
  "\<not> ordered_by_location cs \<Longrightarrow> parse_html_attach cs = Inl AssertionError"
  by (simp add: parse_html_attach_def)

lemma parse_html_attach_no_notes:
  "ordered_by_location cs \<Longrightarrow> note_indices cs = [] \<Longrightarrow> parse_html_attach cs = Inr cs"
  by (simp add: parse_html_attach_def)

lemma parse_html_attach_first_note:
  "ordered_by_location cs \<Longrightarrow> note_indices cs \<noteq> [] \<Longrightarrow> \<not> 0 < hd (note_indices cs) \<Longrightarrow>
   parse_html_attach cs = Inl AssertionError"
  by (simp add: parse_html_attach_def Let_def)

lemma parse_html_attach_notes:
  "ordered_by_location cs \<Longrightarrow> note_indices cs \<noteq> [] \<Longrightarrow> 0 < hd (note_indices cs) \<Longrightarrow>
   parse_html_attach cs =
     Inr (filter (\<lambda>clip. clip_type clip = Highlight) (attach_prev (note_indices cs) cs))"
  by (simp add: parse_html_attach_def Let_def)

lemma attach_prev_note_indices:
  assumes nofirst: "\<not> (cs \<noteq> [] \<and> clip_type (hd cs) = Note)"
  shows "attach_prev (note_indices cs) cs = map (with_next_note cs) [0..<length cs]"
proof -
  have allpos: "\<forall>k\<in>set (note_indices cs). 0 < k \<and> k < length cs"
  proof
    fix k assume k: "k \<in> set (note_indices cs)"
    then have kl: "k < length cs" and kn: "clip_type (cs ! k) = Note"
      using note_indices_props(2)[of cs] by auto
    have "k \<noteq> 0"
    proof
      assume "k = 0"
      then have "clip_type (hd cs) = Note \<and> cs \<noteq> []"
        using kl kn by (cases cs) auto
      then show False using nofirst by simp
    qed
    then show "0 < k \<and> k < length cs" using kl by simp
  qed
  show ?thesis
  proof (rule nth_equalityI)
    show "length (attach_prev (note_indices cs) cs) = length (map (with_next_note cs) [0..<length cs])"
      by simp
  next
    fix i assume "i < length (attach_prev (note_indices cs) cs)"
    then have i: "i < length cs" by simp
    have "attach_prev (note_indices cs) cs ! i = with_next_note cs i"
      unfolding with_next_note_def attach_prev_nth[OF note_indices_props(1) allpos i]
      by (simp add: note_indices_props(2))
    then show "attach_prev (note_indices cs) cs ! i = map (with_next_note cs) [0..<length cs] ! i"
      using i by simp
  qed
qed

lemma no_notes_identity:
  assumes "note_indices cs = []"
  shows "filter (\<lambda>clip. clip_type clip = Highlight) (map (with_next_note cs) [0..<length cs]) = cs"
proof -
  have nonote: "clip_type (cs ! ix) \<noteq> Note" if "ix < length cs" for ix
    using note_indices_props(2)[of cs] assms that by auto
  have m: "map (with_next_note cs) [0..<length cs] = cs"
  proof (rule nth_equalityI)
    show "length (map (with_next_note cs) [0..<length cs]) = length cs" by simp
  next
    fix i assume "i < length (map (with_next_note cs) [0..<length cs])"
    then have i: "i < length cs" by simp
    have "with_next_note cs i = cs ! i"
      using nonote[of "Suc i"] by (auto simp: with_next_note_def)
    then show "map (with_next_note cs) [0..<length cs] ! i = cs ! i" using i by simp
  qed
  have "\<forall>c\<in>set cs. clip_type c = Highlight"
  proof
    fix c assume "c \<in> set cs"
    then obtain ix where "ix < length cs" "c = cs ! ix" by (metis in_set_conv_nth)
    then show "clip_type c = Highlight" using nonote[of ix] by (cases "clip_type c") simp_all
  qed
  then have "filter (\<lambda>clip. clip_type clip = Highlight) cs = cs" by (simp add: filter_id_conv)
  then show ?thesis unfolding m .
qed

lemma no_notes_not_first:
  assumes "note_indices cs = []"
  shows "\<not> (cs \<noteq> [] \<and> clip_type (hd cs) = Note)"
proof
  assume a: "cs \<noteq> [] \<and> clip_type (hd cs) = Note"
  then have "0 \<in> set (note_indices cs)"
    unfolding note_indices_props(2) by (cases cs) auto
  then show False using assms by simp
qed

text \<open>
  Claim C10.  The note attachment of the markup export fails with an assertion error when some
  clipping starts at a smaller location than the clipping before it, and when the first clipping
  is a note.  Otherwise every clipping that is followed by a note takes that note's content,
  whatever the two locations are, and the highlights are returned.
\<close>

theorem parse_html_attach_spec:
  "parse_html_attach all_clips =
     (if (\<exists>ix. 0 < ix \<and> ix < length all_clips \<and>
               loc_first (clip_location (all_clips ! ix))
                 < loc_first (clip_location (all_clips ! (ix - 1))))
         \<or> (all_clips \<noteq> [] \<and> clip_type (hd all_clips) = Note)
      then Inl AssertionError
      else Inr (filter (\<lambda>clip. clip_type clip = Highlight)
             (map (\<lambda>i. if Suc i < length all_clips \<and> clip_type (all_clips ! Suc i) = Note
                        then (all_clips ! i)\<lparr>clip_note := Some (clip_content (all_clips ! Suc i))\<rparr>
                        else all_clips ! i)
                  [0..<length all_clips])))"
proof -
  define dec where "dec \<longleftrightarrow> (\<exists>ix. 0 < ix \<and> ix < length all_clips \<and>
               loc_first (clip_location (all_clips ! ix))
                 < loc_first (clip_location (all_clips ! (ix - 1))))"
  define first where "first \<longleftrightarrow> all_clips \<noteq> [] \<and> clip_type (hd all_clips) = Note"
  define out where "out = filter (\<lambda>clip. clip_type clip = Highlight)
      (map (with_next_note all_clips) [0..<length all_clips])"
  have ord: "ordered_by_location all_clips \<longleftrightarrow> \<not> dec"
    unfolding dec_def by (rule ordered_by_location_iff)
  have "parse_html_attach all_clips = (if dec \<or> first then Inl AssertionError else Inr out)"
  proof (cases dec)
    case True
    then show ?thesis using parse_html_attach_unordered[of all_clips] ord by simp
  next
    case nodec: False
    then have o: "ordered_by_location all_clips" using ord by simp
    show ?thesis
    proof (cases "note_indices all_clips = []")
      case True
      have "\<not> first" unfolding first_def by (rule no_notes_not_first[OF True])
      moreover have "out = all_clips" unfolding out_def by (rule no_notes_identity[OF True])
      ultimately show ?thesis using parse_html_attach_no_notes[OF o True] nodec by simp
    next
      case False
      show ?thesis
      proof (cases first)
        case True
        then have "\<not> 0 < hd (note_indices all_clips)"
          using hd_note_indices[OF False] by (simp add: first_def)
        then show ?thesis using parse_html_attach_first_note[OF o False] True by simp
      next
        case nofirst: False
        then have pos: "0 < hd (note_indices all_clips)"
          using hd_note_indices[OF False] by (simp add: first_def)
        have "attach_prev (note_indices all_clips) all_clips
                = map (with_next_note all_clips) [0..<length all_clips]"
          by (rule attach_prev_note_indices) (use nofirst in \<open>simp add: first_def\<close>)
        then show ?thesis
          using parse_html_attach_notes[OF o False pos] nodec nofirst by (simp add: out_def)
      qed
    qed
  qed
  then show ?thesis
    unfolding dec_def first_def out_def with_next_note_def [abs_def] .
qed

section \<open>Correctness of the window aligner\<close>

lemma valid_nonempty: "t \<noteq> [] \<Longrightarrow> valid s t a b \<Longrightarrow> a < b"
proof -
  assume t: "t \<noteq> []" and v: "valid s t a b"
  show "a < b"
  proof (rule ccontr)
    assume "\<not> a < b"
    then have "win s a b = []" by (simp add: win_def)
    then show False using v t by (simp add: valid_def)
  qed
qed

lemma valid_mono:
  "valid s t a b \<Longrightarrow> a' \<le> a \<Longrightarrow> b \<le> b' \<Longrightarrow> b' \<le> length s \<Longrightarrow> valid s t a' b'"
  using win_mono[of a' a b b' t s] by (auto simp: valid_def)

lemma tight_exists:
  "t \<noteq> [] \<Longrightarrow> valid s t a b \<Longrightarrow> \<exists>a' b'. tight s t a' b' \<and> a \<le> a' \<and> b' \<le> b"
proof (induction "b - a" arbitrary: a b rule: less_induct)
  case less
  have ab: "a < b" using valid_nonempty[OF less.prems] .
  show ?case
  proof (cases "tight s t a b")
    case True
    then show ?thesis by blast
  next
    case False
    then consider "valid s t (Suc a) b" | "valid s t a (b - 1)"
      using less.prems(2) by (auto simp: tight_def)
    then show ?thesis
    proof cases
      case 1
      have "b - Suc a < b - a" using ab by simp
      from less.hyps[OF this less.prems(1) 1] show ?thesis by (meson Suc_leD)
    next
      case 2
      have "b - 1 - a < b - a" using ab by simp
      from less.hyps[OF this less.prems(1) 2] show ?thesis
        by (meson diff_le_self le_trans)
    qed
  qed
qed

lemma better_widen:
  assumes "better a0 b0 a' b'" "a \<le> a'" "b' \<le> b" "a' < b'"
  shows "better a0 b0 a b"
  using assms unfolding better_def by auto

lemma tight_starts_with_head:
  assumes "t \<noteq> []" "tight s t a b"
  shows "s ! a = t ! 0"
proof (rule ccontr)
  assume ne: "s ! a \<noteq> t ! 0"
  have v: "valid s t a b" using assms(2) by (simp add: tight_def)
  have ab: "a < b" using valid_nonempty[OF assms(1) v] .
  have bl: "b \<le> length s" using v by (simp add: valid_def)
  obtain x xs where t: "t = x # xs" using assms(1) by (cases t) auto
  have "win s a b = win s a (Suc a) @ win s (Suc a) b"
    using ab by (intro win_split) simp_all
  moreover have "win s a (Suc a) = [s ! a]"
    using ab bl by (simp add: win_def take_Suc_conv_app_nth)
  ultimately have w: "win s a b = s ! a # win s (Suc a) b" by simp
  have "subseq t (win s a b)" using v by (simp add: valid_def)
  then have "subseq t (win s (Suc a) b)" using ne unfolding w t by simp
  then have "valid s t (Suc a) b" using ab bl by (simp add: valid_def)
  then show False using assms(2) by (simp add: tight_def)
qed

lemma tight_in_range:
  assumes t: "t \<noteq> []" and i: "i \<le> e" "e < length s"
    and fw: "\<forall>b. i \<le> b \<and> subseq t (win s i b) \<longrightarrow> Suc e \<le> b"
    and k: "i \<le> k" "k \<le> e" "subseq t (win s k (Suc e))"
    and tg: "tight s t a b" and a: "i \<le> a" "a \<le> k"
  shows "a = k \<and> b = Suc e"
proof -
  have v: "valid s t a b" using tg by (simp add: tight_def)
  have ab: "a < b" using valid_nonempty[OF t v] .
  have bl: "b \<le> length s" using v by (simp add: valid_def)
  have vk: "valid s t k (Suc e)" using k i by (simp add: valid_def)
  have "valid s t i b" using valid_mono[OF v a(1) le_refl bl] .
  then have eb: "Suc e \<le> b" using fw a(1) ab by (simp add: valid_def)
  have b: "b = Suc e"
  proof (rule ccontr)
    assume "b \<noteq> Suc e"
    then have "Suc e \<le> b - 1" using eb by simp
    then have "valid s t a (b - 1)" using valid_mono[OF vk a(2), of "b - 1"] bl by simp
    then show False using tg by (simp add: tight_def)
  qed
  have "a = k"
  proof (rule ccontr)
    assume "a \<noteq> k"
    then have "Suc a \<le> k" using a(2) by simp
    then have "valid s t (Suc a) (Suc e)" using valid_mono[OF vk _ le_refl] i(2) by simp
    then show False using tg b by (simp add: tight_def)
  qed
  then show ?thesis using b by simp
qed

lemma loop_inv_skip:
  assumes "loop_inv s t i st" "\<forall>b. \<not> tight s t i b"
  shows "loop_inv s t (Suc i) st"
proof -
  from assms(1) consider
    (none) "st = (None, - 1)" "\<forall>a b. tight s t a b \<longrightarrow> i \<le> a"
  | (some) a0 b0 where "st = (Some (int b0 - 1 - int a0), int a0 + 1)" "valid s t a0 b0" "a0 < i"
        "\<forall>a b. tight s t a b \<and> a < i \<longrightarrow> better a0 b0 a b"
    unfolding loop_inv_def by blast
  then show ?thesis
  proof cases
    case none
    have "Suc i \<le> a" if "tight s t a b" for a b
    proof -
      have "i \<le> a" using none(2) that by blast
      moreover have "a \<noteq> i" using assms(2) that by blast
      ultimately show ?thesis by simp
    qed
    then show ?thesis unfolding loop_inv_def using none(1) by blast
  next
    case some
    have "better a0 b0 a b" if "tight s t a b" "a < Suc i" for a b
    proof -
      have "a \<noteq> i" using assms(2) that(1) by blast
      then have "a < i" using that(2) by simp
      then show ?thesis using some(4) that(1) by blast
    qed
    moreover have "a0 < Suc i" using some(3) by simp
    ultimately show ?thesis unfolding loop_inv_def using some(1,2) by blast
  qed
qed

lemma better_refl: "better a b a b"
  by (simp add: better_def)

lemma loop_inv_record:
  assumes t: "t \<noteq> []" and inv: "loop_inv s t i st" and i: "i \<le> e" "e < length s"
    and fw: "\<forall>b. i \<le> b \<and> subseq t (win s i b) \<longrightarrow> Suc e \<le> b"
    and k: "i \<le> k" "k \<le> e" "subseq t (win s k (Suc e))"
  shows "loop_inv s t (Suc k) (record_window (int e) (int k) st)"
proof -
  have vk: "valid s t k (Suc e)" using k i by (simp add: valid_def)
  have rng: "a = k \<and> b = Suc e" if "tight s t a b" "i \<le> a" "a \<le> k" for a b
    using tight_in_range[OF t i fw k that] .
  have new: "(Some (int e - int k), int k + 1) = (Some (int (Suc e) - 1 - int k), int k + 1)"
    by simp
  from inv consider
    (none) "st = (None, - 1)" "\<forall>a b. tight s t a b \<longrightarrow> i \<le> a"
  | (some) a0 b0 where "st = (Some (int b0 - 1 - int a0), int a0 + 1)" "valid s t a0 b0" "a0 < i"
        "\<forall>a b. tight s t a b \<and> a < i \<longrightarrow> better a0 b0 a b"
    unfolding loop_inv_def by blast
  then show ?thesis
  proof cases
    case none
    have r: "record_window (int e) (int k) st = (Some (int (Suc e) - 1 - int k), int k + 1)"
      using none(1) by (simp add: record_window_def)
    have "better k (Suc e) a b" if "tight s t a b" "a < Suc k" for a b
    proof -
      have "i \<le> a" using none(2) that(1) by blast
      then have "a = k \<and> b = Suc e" using rng that by simp
      then show ?thesis by (simp add: better_refl)
    qed
    then show ?thesis unfolding loop_inv_def r using vk by blast
  next
    case some
    have ab0: "a0 < b0" using valid_nonempty[OF t some(2)] .
    show ?thesis
    proof (cases "int e - int k < int b0 - 1 - int a0")
      case True
      then have lt: "Suc e - k < b0 - a0" using k(2) ab0 by simp
      have r: "record_window (int e) (int k) st = (Some (int (Suc e) - 1 - int k), int k + 1)"
        using some(1) True by (simp add: record_window_def)
      have "better k (Suc e) a b" if "tight s t a b" "a < Suc k" for a b
      proof (cases "a < i")
        case True
        then have "better a0 b0 a b" using some(4) that(1) by blast
        then show ?thesis using lt unfolding better_def by auto
      next
        case False
        then have "a = k \<and> b = Suc e" using rng that by simp
        then show ?thesis by (simp add: better_refl)
      qed
      then show ?thesis unfolding loop_inv_def r using vk by blast
    next
      case False
      then have ge: "b0 - a0 \<le> Suc e - k" using k(2) ab0 by simp
      have r: "record_window (int e) (int k) st = st"
        using some(1) False by (simp add: record_window_def)
      have "better a0 b0 a b" if "tight s t a b" "a < Suc k" for a b
      proof (cases "a < i")
        case True
        then show ?thesis using some(4) that(1) by blast
      next
        case False
        then have "a = k \<and> b = Suc e" using rng that by simp
        then show ?thesis using ge some(3) k(1) unfolding better_def by auto
      qed
      moreover have "a0 < Suc k" using some(3) k(1) by simp
      ultimately show ?thesis unfolding loop_inv_def r using some(1,2) by blast
    qed
  qed
qed

lemma window_loop_inv:
  "t \<noteq> [] \<Longrightarrow> i \<le> length s \<Longrightarrow> loop_inv s t i st \<Longrightarrow>
   \<exists>st'. window_loop s t i st = Inr st' \<and> loop_inv s t (length s) st'"
proof (induction s t i st rule: window_loop.induct)
  case (1 s t i st)
  note t = "1.prems"(1) and inv = "1.prems"(3)
  show ?case
  proof (cases "i < length s")
    case False
    then have "i = length s" using "1.prems"(2) by simp
    moreover have "window_loop s t i st = Inr st"
      using False by (subst window_loop.simps) simp
    ultimately show ?thesis using inv by simp
  next
    case il: True
    show ?thesis
    proof (cases "s ! i = t ! 0")
      case neq: False
      have w: "window_loop s t i st = window_loop s t (i + 1) st"
        using il t neq by (subst window_loop.simps) simp
      have "\<forall>b. \<not> tight s t i b" using tight_starts_with_head[OF t] neq by blast
      then have "loop_inv s t (Suc i) st" using loop_inv_skip[OF inv] by simp
      then show ?thesis using "1.IH"(3)[OF il t neq t] il w by simp
    next
      case eq: True
      show ?thesis
      proof (cases "snd (forward_scan s t i 0) = length t")
        case fail: False
        have w: "window_loop s t i st = window_loop s t (i + 1) st"
          using il t eq fail by (subst window_loop.simps) simp
        have ns: "\<not> subseq t (drop i s)" using forward_fail[OF _ t fail] il by simp
        have "\<not> tight s t i b" for b
        proof
          assume "tight s t i b"
          then have "valid s t i b" by (simp add: tight_def)
          then have "valid s t i (length s)"
            using valid_mono[of s t i b i "length s"] by (simp add: valid_def)
          then show False using ns by (simp add: valid_def win_full)
        qed
        then have "loop_inv s t (Suc i) st" using loop_inv_skip[OF inv] by simp
        then show ?thesis using "1.IH"(2)[OF il t eq fail t] il w by simp
      next
        case ok: True
        obtain e where e: "fst (forward_scan s t i 0) = e" "i \<le> e" "e < length s"
          "subseq t (win s i (Suc e))"
          "\<forall>b. i \<le> b \<and> subseq t (win s i b) \<longrightarrow> Suc e \<le> b"
          using forward_success[OF _ t ok] il by auto
        obtain k where k: "backward_scan s t i (int e) (int (length t) - 1) = (int k, - 1)"
          "i \<le> k" "k \<le> e" "subseq t (win s k (Suc e))"
          using backward_success[OF e(2,3) t e(4)] by blast
        have w: "window_loop s t i st =
                   window_loop s t (Suc k) (record_window (int e) (int k) st)"
          using il t eq ok e(1) k(1)
          by (subst window_loop.simps) (simp add: nat_add_distrib)
        have inv': "loop_inv s t (Suc k) (record_window (int e) (int k) st)"
          using loop_inv_record[OF t inv e(2,3,5) k(2,3,4)] .
        have nk: "nat (fst (backward_scan s t i (int (fst (forward_scan s t i 0)))
                    (int (length t) - 1)) + 1) = Suc k"
          using e(1) k(1) by (simp add: nat_add_distrib)
        have nk2: "nat (int k + 1) = Suc k" by simp
        have sk: "Suc k \<le> length s" using k(3) e(3) by simp
        have "\<exists>st'. window_loop s t (Suc k) (record_window (int e) (int k) st) = Inr st' \<and>
                 loop_inv s t (length s) st'"
          using "1.IH"(1)[OF il t eq ok t, unfolded e(1) k(1) fst_conv nk2, OF sk inv'] .
        then show ?thesis using w by simp
      qed
    qed
  qed
qed

lemma py_slice_win:
  "a \<le> b \<Longrightarrow> b \<le> length s \<Longrightarrow> py_slice s (int a) (int b) = win s a b"
  by (simp add: py_slice_def win_def Let_def min_def nat_diff_distrib')

lemma loop_inv_init: "loop_inv s t 0 (None, - 1)"
  by (simp add: loop_inv_def)

lemma window_loop_final:
  assumes "t \<noteq> []"
  shows "\<exists>st'. window_loop s t 0 (None, - 1) = Inr st' \<and> loop_inv s t (length s) st'"
  using window_loop_inv[OF assms _ loop_inv_init, of s] by simp

lemma min_window_not_found:
  assumes t: "t \<noteq> []" and ns: "\<not> subseq t s"
  shows "min_window_subsequence s t = Inr []"
proof -
  obtain st' where st': "window_loop s t 0 (None, - 1) = Inr st'" "loop_inv s t (length s) st'"
    using window_loop_final[OF t] by blast
  have "\<not> valid s t a b" for a b
  proof
    assume "valid s t a b"
    then have "valid s t 0 (length s)"
      using valid_mono[of s t a b 0 "length s"] by (simp add: valid_def)
    then show False using ns by (simp add: valid_def win_def)
  qed
  then have "st' = (None, - 1)" using st'(2) unfolding loop_inv_def by blast
  then show ?thesis using st'(1) by (simp add: min_window_subsequence_def)
qed

lemma min_window_empty_target:
  "min_window_subsequence s [] = (if s = [] then Inr [] else Inl IndexError)"
  by (subst min_window_subsequence_def, subst window_loop.simps) simp

text \<open>
  Claim C1.  When the target \<open>t\<close> is not empty and some contiguous substring of \<open>s\<close> contains it as
  a subsequence, the function returns a contiguous substring of \<open>s\<close>, at some position \<open>a\<close> and of
  some length \<open>l\<close>, that contains \<open>t\<close> as a subsequence; every contiguous substring of \<open>s\<close>
  that contains \<open>t\<close> as a subsequence is longer, or has the same length and does not start
  earlier.
\<close>

theorem min_window_subsequence_shortest_earliest:
  assumes t: "t \<noteq> []" and ex: "\<exists>w. sublist w s \<and> subseq t w"
  shows "\<exists>a l. min_window_subsequence s t = Inr (take l (drop a s)) \<and>
           a + l \<le> length s \<and> subseq t (take l (drop a s)) \<and>
           (\<forall>a' l'. a' + l' \<le> length s \<and> subseq t (take l' (drop a' s)) \<longrightarrow>
                l < l' \<or> (l = l' \<and> a \<le> a'))"
proof -
  from ex obtain w where "sublist w s" "subseq t w" by blast
  then have ts: "subseq t s" by (meson sublist_imp_subseq subseq_order.order_trans)
  obtain st' where st': "window_loop s t 0 (None, - 1) = Inr st'" "loop_inv s t (length s) st'"
    using window_loop_final[OF t] by blast
  have v0: "valid s t 0 (length s)" using ts by (simp add: valid_def win_def)
  obtain a1 b1 where tg1: "tight s t a1 b1" using tight_exists[OF t v0] by blast
  then have "valid s t a1 b1" by (simp add: tight_def)
  then have "a1 < length s" using valid_nonempty[OF t] by (fastforce simp: valid_def)
  then have "\<not> (\<forall>a b. tight s t a b \<longrightarrow> length s \<le> a)" using tg1 by (meson not_less)
  then obtain a0 b0 where st: "st' = (Some (int b0 - 1 - int a0), int a0 + 1)"
    and v: "valid s t a0 b0"
    and best: "\<forall>a b. tight s t a b \<and> a < length s \<longrightarrow> better a0 b0 a b"
    using st'(2) unfolding loop_inv_def by blast
  have ab: "a0 \<le> b0" "b0 \<le> length s" "subseq t (win s a0 b0)"
    using v by (simp_all add: valid_def)
  have "min_window_subsequence s t = Inr (py_slice s (int a0) (int b0))"
    using st'(1) st by (simp add: min_window_subsequence_def)
  then have res: "min_window_subsequence s t = Inr (take (b0 - a0) (drop a0 s))"
    using py_slice_win[OF ab(1,2)] by (simp add: win_def)
  have opt: "b0 - a0 < l' \<or> (b0 - a0 = l' \<and> a0 \<le> a')"
    if "a' + l' \<le> length s" "subseq t (take l' (drop a' s))" for a' l'
  proof -
    have v': "valid s t a' (a' + l')" using that by (simp add: valid_def win_def)
    obtain a2 b2 where tg: "tight s t a2 b2" "a' \<le> a2" "b2 \<le> a' + l'"
      using tight_exists[OF t v'] by blast
    have v2: "valid s t a2 b2" using tg(1) by (simp add: tight_def)
    have ab2: "a2 < b2" using valid_nonempty[OF t v2] .
    have "b2 \<le> length s" using v2 by (simp add: valid_def)
    then have "better a0 b0 a2 b2" using best tg(1) ab2 by simp
    then have "better a0 b0 a' (a' + l')" using better_widen tg(2,3) ab2 by blast
    then show ?thesis by (simp add: better_def)
  qed
  have "a0 + (b0 - a0) \<le> length s" using ab by simp
  moreover have "subseq t (take (b0 - a0) (drop a0 s))" using ab(3) by (simp add: win_def)
  ultimately show ?thesis using res opt by blast
qed

text \<open>The example of the specification: the window of \<open>abc\<close> in \<open>xxaxbxcxx\<close> is \<open>axbxc\<close>.\<close>

theorem min_window_subsequence_witness:
  "''abc'' \<noteq> [] \<and> (\<exists>w. sublist w ''xxaxbxcxx'' \<and> subseq ''abc'' w) \<and>
   min_window_subsequence ''xxaxbxcxx'' ''abc'' = Inr ''axbxc'' \<and>
   (\<exists>a l. min_window_subsequence ''xxaxbxcxx'' ''abc'' = Inr (take l (drop a ''xxaxbxcxx'')) \<and>
      a + l \<le> length ''xxaxbxcxx'' \<and> subseq ''abc'' (take l (drop a ''xxaxbxcxx'')) \<and>
      (\<forall>a' l'. \<not> (a' + l' \<le> length ''xxaxbxcxx'' \<and> subseq ''abc'' (take l' (drop a' ''xxaxbxcxx'')))
          \<or> l < l' \<or> (l = l' \<and> a \<le> a')))"
proof -
  have ne: "''abc'' \<noteq> []" by simp
  have "sublist ''xxaxbxcxx'' ''xxaxbxcxx'' \<and> subseq ''abc'' ''xxaxbxcxx''" by simp
  then have ex: "\<exists>w. sublist w ''xxaxbxcxx'' \<and> subseq ''abc'' w" by blast
  have ev: "min_window_subsequence ''xxaxbxcxx'' ''abc'' = Inr ''axbxc''" by code_simp
  show ?thesis
    using min_window_subsequence_shortest_earliest[OF ne ex] ne ex ev by blast
qed

section \<open>Properties of the normaliser\<close>

lemma isspace_32 [simp]: "py_isspace 32"
  by (simp add: py_isspace_def)

lemma sub_ws_nonspace_head:
  "sub_ws (dropWhile py_isspace cs) = [] \<or> \<not> py_isspace (hd (sub_ws (dropWhile py_isspace cs)))"
proof (cases "dropWhile py_isspace cs")
  case Nil
  show ?thesis unfolding Nil by simp
next
  case (Cons d r)
  then have "\<not> py_isspace d" using hd_dropWhile[of py_isspace cs] by (metis list.sel(1) list.distinct(1))
  then show ?thesis unfolding Cons by simp
qed

lemma single_spaced_Cons:
  "single_spaced (c # u) \<longleftrightarrow>
     (\<not> py_isspace c \<or> (c = 32 \<and> (u = [] \<or> \<not> py_isspace (hd u)))) \<and> single_spaced u"
  by (cases u) auto

lemma single_spaced_sub_ws: "single_spaced (sub_ws s)"
proof (induction s rule: sub_ws.induct)
  case 1
  then show ?case by simp
next
  case (2 c cs)
  show ?case
  proof (cases "py_isspace c")
    case True
    then show ?thesis
      using "2.IH"(1) sub_ws_nonspace_head[of cs] by (simp add: single_spaced_Cons)
  next
    case False
    then show ?thesis using "2.IH"(2) by (simp add: single_spaced_Cons)
  qed
qed

lemma sub_ws_single_spaced: "single_spaced u \<Longrightarrow> sub_ws u = u"
proof (induction u rule: single_spaced.induct)
  case 1
  then show ?case by simp
next
  case (2 c)
  then show ?case by auto
next
  case (3 c d r)
  then show ?case by auto
qed

lemma single_spaced_append: "single_spaced (a @ b) \<Longrightarrow> single_spaced a \<and> single_spaced b"
proof (induction a rule: single_spaced.induct)
  case 1
  then show ?case by simp
next
  case (2 c)
  then show ?case by (cases b) auto
next
  case (3 c d r)
  then show ?case by auto
qed

lemma single_spaced_dropWhile: "single_spaced u \<Longrightarrow> single_spaced (dropWhile P u)"
  using single_spaced_append[of "takeWhile P u" "dropWhile P u"] by simp

lemma rstrip_prefix: "\<exists>z. u = rev (dropWhile P (rev u)) @ z"
proof -
  have "rev u = takeWhile P (rev u) @ dropWhile P (rev u)" by simp
  then have "u = rev (dropWhile P (rev u)) @ rev (takeWhile P (rev u))"
    by (metis rev_append rev_rev_ident)
  then show ?thesis by blast
qed

lemma single_spaced_strip: "single_spaced u \<Longrightarrow> single_spaced (py_strip u)"
proof -
  assume "single_spaced u"
  then have w: "single_spaced (dropWhile py_isspace u)" by (rule single_spaced_dropWhile)
  obtain z where "dropWhile py_isspace u = py_strip u @ z"
    using rstrip_prefix[of "dropWhile py_isspace u" py_isspace] by (auto simp: py_strip_def)
  then show ?thesis using w single_spaced_append by metis
qed

lemma strip_trimmed_id: "trimmed u \<Longrightarrow> py_strip u = u"
proof (cases u)
  case Nil
  then show ?thesis by (simp add: py_strip_def)
next
  case (Cons c r)
  assume "trimmed u"
  then have h: "\<not> py_isspace (hd u)" and l: "\<not> py_isspace (last u)"
    using Cons by (simp_all add: trimmed_def)
  have "dropWhile py_isspace u = u" using h Cons by simp
  moreover have "dropWhile py_isspace (rev u) = rev u"
  proof -
    obtain x xs where r: "rev u = x # xs" using Cons by (cases "rev u") auto
    have "hd (rev u) = last u" using Cons by (simp add: hd_rev)
    then have "\<not> py_isspace x" using l r by simp
    then show ?thesis unfolding r by simp
  qed
  ultimately show ?thesis by (simp add: py_strip_def)
qed

lemma trimmed_strip: "trimmed (py_strip u)"
proof (cases "dropWhile py_isspace u")
  case Nil
  show ?thesis unfolding py_strip_def Nil by (simp add: trimmed_def)
next
  case (Cons c r)
  then have c: "\<not> py_isspace c"
    using hd_dropWhile[of py_isspace u] by (metis list.sel(1) list.distinct(1))
  define w where "w = dropWhile py_isspace (rev (c # r))"
  have "rev (c # r) = rev r @ [c]" by simp
  then have "w = dropWhile py_isspace (rev r) @ [c] \<or> w = [c]"
    unfolding w_def using c by (simp add: dropWhile_append)
  then have wl: "w \<noteq> [] \<and> last w = c" by auto
  have wh: "\<not> py_isspace (hd w)"
    unfolding w_def using wl hd_dropWhile[of py_isspace "rev (c # r)"] by (simp add: w_def)
  have "py_strip u = rev w" unfolding py_strip_def Cons w_def ..
  moreover have "hd (rev w) = c" using wl by (simp add: hd_rev)
  moreover have "last (rev w) = hd w" using wl by (simp add: last_rev)
  ultimately show ?thesis using c wh wl by (simp add: trimmed_def)
qed

lemma normalize_str_normal: "single_spaced (normalize_str s) \<and> trimmed (normalize_str s)"
  by (simp add: normalize_str_def single_spaced_strip single_spaced_sub_ws trimmed_strip)

lemma normalize_str_fixpoint: "single_spaced u \<Longrightarrow> trimmed u \<Longrightarrow> normalize_str u = u"
  by (simp add: normalize_str_def sub_ws_single_spaced strip_trimmed_id)

lemma normalize_str_idem: "normalize_str (normalize_str s) = normalize_str s"
  using normalize_str_normal[of s] normalize_str_fixpoint by blast

lemma sub_ws_run:
  assumes "a \<noteq> []" "list_all py_isspace a"
  shows "sub_ws (a @ u) = 32 # sub_ws (dropWhile py_isspace u)"
proof -
  obtain c a' where a: "a = c # a'" using assms(1) by (cases a) auto
  have c: "py_isspace c" and a': "\<And>x. x \<in> set a' \<Longrightarrow> py_isspace x"
    using assms(2) by (simp_all add: a list_all_iff)
  have "dropWhile py_isspace (a' @ u) = dropWhile py_isspace u"
    using a' by (rule dropWhile_append2)
  then show ?thesis using c by (simp add: a)
qed

lemma sub_ws_dropWhile:
  "sub_ws (dropWhile py_isspace u) =
     (case sub_ws u of [] \<Rightarrow> [] | c # r \<Rightarrow> if c = 32 then r else c # r)"
proof (cases u)
  case Nil
  then show ?thesis by simp
next
  case (Cons c r)
  show ?thesis
  proof (cases "py_isspace c")
    case True
    then show ?thesis by (simp add: Cons)
  next
    case False
    then have "c \<noteq> 32" using isspace_32 by auto
    then show ?thesis using False by (simp add: Cons)
  qed
qed

lemma same_up_to_ws_sub_ws:
  "same_up_to_ws py_isspace x y \<Longrightarrow> sub_ws x = sub_ws y"
proof (induction rule: same_up_to_ws.induct)
  case same_nil
  then show ?case by simp
next
  case (same_char c u v)
  then show ?case by simp
next
  case (same_run a b u v)
  have "sub_ws (dropWhile py_isspace u) = sub_ws (dropWhile py_isspace v)"
    by (simp only: sub_ws_dropWhile same_run.IH)
  then show ?case using same_run.hyps by (simp add: sub_ws_run)
qed

lemma ws_words_Nil [simp]: "ws_words [] = []"
  by (subst ws_words.simps) simp

lemma ws_words_dropWhile: "ws_words (dropWhile py_isspace s) = ws_words s"
  by (subst ws_words.simps, subst (2) ws_words.simps) simp

lemma ws_words_nonspace:
  "\<not> py_isspace c \<Longrightarrow>
   ws_words (c # r) =
     takeWhile (\<lambda>x. \<not> py_isspace x) (c # r) # ws_words (dropWhile (\<lambda>x. \<not> py_isspace x) (c # r))"
  by (subst ws_words.simps) simp

lemma sub_ws_nonspace_prefix:
  "\<forall>x\<in>set w. \<not> py_isspace x \<Longrightarrow> sub_ws (w @ u) = w @ sub_ws u"
  by (induction w) simp_all

lemma sub_ws_space_head:
  "py_isspace d \<Longrightarrow> sub_ws (d # r) = 32 # sub_ws (dropWhile py_isspace (d # r))"
  by simp

lemma join_sp_Cons2: "ws \<noteq> [] \<Longrightarrow> join_sp (w # ws) = w @ 32 # join_sp ws"
  by (cases ws) simp_all

lemma sub_ws_words:
  "t = [] \<or> \<not> py_isspace (hd t) \<Longrightarrow> sub_ws t = join_sp (ws_words t) @ trailing_sp t"
proof (induction "length t" arbitrary: t rule: less_induct)
  case less
  show ?case
  proof (cases t)
    case Nil
    then show ?thesis by (simp add: trailing_sp_def)
  next
    case (Cons c r)
    then have c: "\<not> py_isspace c" using less.prems by simp
    define w where "w = takeWhile (\<lambda>x. \<not> py_isspace x) t"
    define rest where "rest = dropWhile (\<lambda>x. \<not> py_isspace x) t"
    have t: "t = w @ rest" by (simp add: w_def rest_def)
    have wN: "\<forall>x\<in>set w. \<not> py_isspace x" unfolding w_def by (auto dest: set_takeWhileD)
    have wne: "w \<noteq> []" unfolding w_def using Cons c by simp
    have words: "ws_words t = w # ws_words rest"
      unfolding w_def rest_def Cons using c by (rule ws_words_nonspace)
    have sub: "sub_ws t = w @ sub_ws rest"
      using sub_ws_nonspace_prefix[OF wN, of rest] t by simp
    show ?thesis
    proof (cases rest)
      case Nil
      have "last t = last w" using t Nil by simp
      then have "\<not> py_isspace (last t)" using wN wne by simp
      then have "trailing_sp t = []" by (simp add: trailing_sp_def)
      then show ?thesis using sub words Nil by simp
    next
      case rc: (Cons d r')
      have "rest \<noteq> []" using rc by simp
      then have "\<not> \<not> py_isspace (hd rest)" unfolding rest_def by (rule hd_dropWhile)
      then have d: "py_isspace d" using rc by simp
      define t2 where "t2 = dropWhile py_isspace rest"
      have sub2: "sub_ws rest = 32 # sub_ws t2"
        unfolding t2_def rc using d by (rule sub_ws_space_head)
      have words2: "ws_words rest = ws_words t2" by (simp add: t2_def ws_words_dropWhile)
      have rest_split: "rest = takeWhile py_isspace rest @ t2" by (simp add: t2_def)
      have len: "length t2 < length t"
      proof -
        have "length t2 \<le> length rest" unfolding t2_def by (rule length_dropWhile_le)
        moreover have "length rest < length t" using t wne by simp
        ultimately show ?thesis by simp
      qed
      have hd2: "t2 = [] \<or> \<not> py_isspace (hd t2)"
        using hd_dropWhile[of py_isspace rest] by (auto simp: t2_def)
      have IH: "sub_ws t2 = join_sp (ws_words t2) @ trailing_sp t2"
        using less.hyps[OF len hd2] .
      show ?thesis
      proof (cases "t2 = []")
        case True
        have "\<forall>x\<in>set rest. py_isspace x" using True unfolding t2_def by simp
        moreover have "last t = last rest" using t rc by simp
        moreover have "last rest \<in> set rest" using rc by simp
        ultimately have "py_isspace (last t)" by simp
        then have "trailing_sp t = [32]" using Cons by (simp add: trailing_sp_def)
        then show ?thesis using sub sub2 words words2 True by simp
      next
        case False
        then obtain c2 r2 where t2c: "t2 = c2 # r2" by (cases t2) auto
        then have "\<not> py_isspace c2" using hd2 by simp
        then have ne2: "ws_words t2 \<noteq> []" unfolding t2c by (simp add: ws_words_nonspace)
        have "t = (w @ takeWhile py_isspace rest) @ t2" using t rest_split by simp
        then have "last t = last t2" using False by (metis last_appendR)
        then have tr: "trailing_sp t = trailing_sp t2"
          using False Cons by (simp add: trailing_sp_def)
        have "join_sp (ws_words t) = w @ 32 # join_sp (ws_words t2)"
          unfolding words words2 using ne2 by (rule join_sp_Cons2)
        then show ?thesis using sub sub2 IH tr by simp
      qed
    qed
  qed
qed

lemma ws_words_props:
  "w \<in> set (ws_words s) \<Longrightarrow> w \<noteq> [] \<and> (\<forall>x\<in>set w. \<not> py_isspace x)"
proof (induction s rule: ws_words.induct)
  case (1 s)
  show ?case
  proof (cases "dropWhile py_isspace s")
    case Nil
    have "ws_words s = []" by (subst ws_words.simps) (simp only: Nil list.case)
    then have "w \<in> set []" using "1.prems" by (simp only:)
    then show ?thesis by simp
  next
    case (Cons c r)
    have c: "\<not> py_isspace c" using hd_dropWhile[of py_isspace s] Cons by simp
    define tw where "tw = takeWhile (\<lambda>x. \<not> py_isspace x) (c # r)"
    define dw where "dw = dropWhile (\<lambda>x. \<not> py_isspace x) (c # r)"
    have ws: "ws_words s = tw # ws_words dw"
      unfolding tw_def dw_def by (subst ws_words.simps) (simp only: Cons list.case)
    have tw1: "tw \<noteq> []" unfolding tw_def using c by simp
    have tw2: "\<forall>x\<in>set tw. \<not> py_isspace x"
      unfolding tw_def using set_takeWhileD by fastforce
    have "w \<in> set (tw # ws_words dw)" using "1.prems" unfolding ws .
    then have "w = tw \<or> w \<in> set (ws_words dw)" by simp
    then show ?thesis
    proof
      assume "w = tw"
      then show ?thesis using tw1 tw2 by blast
    next
      assume "w \<in> set (ws_words dw)"
      then show ?thesis unfolding dw_def by (rule "1.IH"[OF Cons])
    qed
  qed
qed

lemma join_sp_last:
  "ws \<noteq> [] \<Longrightarrow> \<forall>w\<in>set ws. w \<noteq> [] \<Longrightarrow> join_sp ws \<noteq> [] \<and> last (join_sp ws) = last (last ws)"
proof (induction ws rule: join_sp.induct)
  case 1
  then show ?case by simp
next
  case (2 x)
  then show ?case by simp
next
  case (3 x y r)
  have "\<forall>w\<in>set (y # r). w \<noteq> []" using "3.prems"(2) by simp
  then have ih: "join_sp (y # r) \<noteq> [] \<and> last (join_sp (y # r)) = last (last (y # r))"
    using "3.IH" by blast
  have j: "join_sp (x # y # r) = x @ 32 # join_sp (y # r)" by simp
  have "last (x @ 32 # join_sp (y # r)) = last (join_sp (y # r))" using ih by simp
  moreover have "last (x # y # r) = last (y # r)" by simp
  ultimately show ?case unfolding j using ih by simp
qed

lemma join_sp_hd: "ws \<noteq> [] \<Longrightarrow> hd ws \<noteq> [] \<Longrightarrow> hd (join_sp ws) = hd (hd ws)"
proof (cases ws rule: join_sp.cases)
  case 1
  assume "ws \<noteq> []"
  then show ?thesis using 1 by simp
next
  case (2 x)
  then show ?thesis by simp
next
  case (3 x y r)
  assume "hd ws \<noteq> []"
  then have "x \<noteq> []" using 3 by simp
  then show ?thesis unfolding 3 by simp
qed

lemma trimmed_join_words: "trimmed (join_sp (ws_words s))"
proof (cases "ws_words s")
  case Nil
  then show ?thesis by (simp add: trimmed_def)
next
  case (Cons w rest)
  have ne: "ws_words s \<noteq> []" using Cons by simp
  have all: "\<forall>w\<in>set (ws_words s). w \<noteq> []" using ws_words_props by blast
  have l: "last (join_sp (ws_words s)) = last (last (ws_words s))"
    using join_sp_last[OF ne all] by simp
  have "last (ws_words s) \<in> set (ws_words s)" using ne by simp
  then have lw: "last (ws_words s) \<noteq> [] \<and> (\<forall>x\<in>set (last (ws_words s)). \<not> py_isspace x)"
    using ws_words_props by blast
  then have "last (last (ws_words s)) \<in> set (last (ws_words s))" by simp
  then have a: "\<not> py_isspace (last (join_sp (ws_words s)))" using lw l by simp
  have "hd (ws_words s) \<in> set (ws_words s)" using ne by simp
  then have hw: "hd (ws_words s) \<noteq> [] \<and> (\<forall>x\<in>set (hd (ws_words s)). \<not> py_isspace x)"
    using ws_words_props by blast
  then have "hd (join_sp (ws_words s)) = hd (hd (ws_words s))" using join_sp_hd[OF ne] by simp
  moreover have "hd (hd (ws_words s)) \<in> set (hd (ws_words s))" using hw by simp
  ultimately have b: "\<not> py_isspace (hd (join_sp (ws_words s)))" using hw by simp
  show ?thesis using a b by (simp add: trimmed_def)
qed

lemma strip_padded:
  assumes "trimmed j" "\<forall>x\<in>set a. py_isspace x" "\<forall>x\<in>set b. py_isspace x"
  shows "py_strip (a @ j @ b) = j"
proof (cases j)
  case Nil
  have d: "dropWhile py_isspace (a @ b) = []"
    unfolding dropWhile_eq_Nil_conv using assms(2,3) by auto
  have "py_strip (a @ b) = []" unfolding py_strip_def d by simp
  then show ?thesis unfolding Nil by simp
next
  case (Cons c r)
  have h: "\<not> py_isspace (hd j)" using assms(1) Cons unfolding trimmed_def by blast
  have l: "\<not> py_isspace (last j)" using assms(1) Cons unfolding trimmed_def by blast
  have c: "\<not> py_isspace c" using h unfolding Cons by simp
  have "\<And>x. x \<in> set a \<Longrightarrow> py_isspace x" using assms(2) by simp
  then have "dropWhile py_isspace (a @ j @ b) = dropWhile py_isspace (j @ b)"
    by (rule dropWhile_append2)
  also have "\<dots> = j @ b" unfolding Cons using c by simp
  finally have d1: "dropWhile py_isspace (a @ j @ b) = j @ b" .
  obtain x xs where rj: "rev j = x # xs" using Cons by (cases "rev j") auto
  have "hd (rev j) = last j" using Cons by (simp add: hd_rev)
  then have x: "\<not> py_isspace x" using l unfolding rj by simp
  have "\<And>x. x \<in> set (rev b) \<Longrightarrow> py_isspace x" using assms(3) by simp
  then have "dropWhile py_isspace (rev b @ rev j) = dropWhile py_isspace (rev j)"
    by (rule dropWhile_append2)
  also have "\<dots> = rev j" unfolding rj using x by simp
  finally have d2: "dropWhile py_isspace (rev b @ rev j) = rev j" .
  have "py_strip (a @ j @ b) = rev (dropWhile py_isspace (rev (j @ b)))"
    unfolding py_strip_def d1 ..
  also have "\<dots> = rev (dropWhile py_isspace (rev b @ rev j))" by (simp only: rev_append)
  also have "\<dots> = j" unfolding d2 by (simp only: rev_rev_ident)
  finally show ?thesis .
qed

lemma normalize_str_words: "normalize_str s = join_sp (ws_words s)"
proof -
  define t where "t = dropWhile py_isspace s"
  have hd: "t = [] \<or> \<not> py_isspace (hd t)"
    using hd_dropWhile[of py_isspace s] by (auto simp: t_def)
  have st: "sub_ws t = join_sp (ws_words s) @ trailing_sp t"
    using sub_ws_words[OF hd] by (simp add: t_def ws_words_dropWhile)
  have "\<exists>a. (\<forall>x\<in>set a. py_isspace x) \<and> sub_ws s = a @ sub_ws t"
  proof (cases s)
    case Nil
    then have "sub_ws s = [] @ sub_ws t" by (simp add: t_def)
    then show ?thesis by (metis empty_iff list.set(1))
  next
    case (Cons c r)
    show ?thesis
    proof (cases "py_isspace c")
      case True
      then have "sub_ws s = [32] @ sub_ws t" unfolding Cons t_def by simp
      moreover have "\<forall>x\<in>set [32]. py_isspace x" by simp
      ultimately show ?thesis by blast
    next
      case False
      then have "sub_ws s = [] @ sub_ws t" unfolding Cons t_def by simp
      then show ?thesis by (metis empty_iff list.set(1))
    qed
  qed
  then obtain a where a: "\<forall>x\<in>set a. py_isspace x" "sub_ws s = a @ sub_ws t" by blast
  have b: "\<forall>x\<in>set (trailing_sp t). py_isspace x" by (simp add: trailing_sp_def)
  have "normalize_str s = py_strip (a @ join_sp (ws_words s) @ trailing_sp t)"
    by (simp add: normalize_str_def a(2) st)
  then show ?thesis using strip_padded[OF trimmed_join_words a(1) b] by simp
qed

text \<open>
  Claim C6, as the code has it.  \<open>normalize_str\<close> is a total function and is idempotent; it
  replaces each whitespace run by a single ASCII space and trims, that is, its result is the
  words of the input joined by single ASCII spaces, so that whitespace occurs in the result only
  as single ASCII spaces between other characters and at neither end; and it maps two strings
  that differ only in the length or the class of their whitespace runs to the same string.
  Whitespace is what \<^verbatim>\<open>\s\<close> matches.
\<close>

theorem normalize_str_idempotent_ws_insensitive:
  "normalize_str (normalize_str x) = normalize_str x \<and>
   normalize_str x = join_sp (ws_words x) \<and>
   single_spaced (normalize_str x) \<and> trimmed (normalize_str x) \<and>
   (same_up_to_ws py_isspace x y \<longrightarrow> normalize_str x = normalize_str y)"
  using normalize_str_idem[of x] normalize_str_normal[of x] same_up_to_ws_sub_ws[of x y]
    normalize_str_words[of x]
  by (simp add: normalize_str_def)

lemma eval_a_b: "normalize_str [97, 0xA0, 98] = [97, 32, 98]"
  by (simp add: normalize_str_def py_strip_def py_isspace_def)

text \<open>
  Two strings that differ in a run of a space and a tab against one non-breaking space.
\<close>

theorem normalize_str_witness:
  "same_up_to_ws py_isspace [97, 32, 9, 98] [97, 0xA0, 98] \<and>
   normalize_str [97, 32, 9, 98] = normalize_str [97, 0xA0, 98] \<and>
   normalize_str [97, 0xA0, 98] = [97, 32, 98] \<and>
   normalize_str (normalize_str [97, 32, 9, 98]) = normalize_str [97, 32, 9, 98]"
proof -
  have b: "same_up_to_ws py_isspace [98] [98]"
    by (intro same_char same_nil) (simp add: py_isspace_def)
  have "same_up_to_ws py_isspace ([32, 9] @ [98]) ([0xA0] @ [98])"
    by (rule same_run[OF _ _ _ _ b]) (simp_all add: py_isspace_def)
  then have "same_up_to_ws py_isspace (97 # [32, 9] @ [98]) (97 # [0xA0] @ [98])"
    by (intro same_char) (simp_all add: py_isspace_def)
  then have s: "same_up_to_ws py_isspace [97, 32, 9, 98] [97, 0xA0, 98]" by simp
  have e: "normalize_str [97, 32, 9, 98] = normalize_str [97, 0xA0, 98]"
    and i: "normalize_str (normalize_str [97, 32, 9, 98]) = normalize_str [97, 32, 9, 98]"
    using normalize_str_idempotent_ws_insensitive[of "[97, 32, 9, 98]" "[97, 0xA0, 98]"] s
    by blast+
  show ?thesis using s e i eval_a_b by blast
qed

text \<open>
  With the byte-order mark counted as whitespace, as the claim lists it, the property fails:
  \<open>normalize_str\<close> keeps U+FEFF, so \<open>a\<close> U+FEFF \<open>b\<close> and \<open>a b\<close> stay different.  The other
  function, \<open>normalize_whitespace\<close>, replaces U+FEFF by a space but neither collapses runs nor
  trims, so it keeps strings that differ in the length of a run apart.
\<close>

theorem normalizer_bom_counterexample:
  "\<not> (\<forall>x y. same_up_to_ws listed_whitespace x y \<longrightarrow> normalize_str x = normalize_str y) \<and>
   \<not> (\<forall>x y. same_up_to_ws listed_whitespace x y \<longrightarrow> normalize_whitespace x = normalize_whitespace y)"
proof -
  have b: "same_up_to_ws listed_whitespace [98] [98]"
    by (intro same_char same_nil) (simp add: listed_whitespace_def py_isspace_def unicode_whitespace_def)
  have "same_up_to_ws listed_whitespace ([0xFEFF] @ [98]) ([32] @ [98])"
    by (rule same_run[OF _ _ _ _ b])
       (simp_all add: listed_whitespace_def py_isspace_def unicode_whitespace_def)
  then have "same_up_to_ws listed_whitespace (97 # [0xFEFF] @ [98]) (97 # [32] @ [98])"
    by (intro same_char) (simp_all add: listed_whitespace_def py_isspace_def unicode_whitespace_def)
  then have s1: "same_up_to_ws listed_whitespace [97, 0xFEFF, 98] [97, 32, 98]" by simp
  have n1: "normalize_str [97, 0xFEFF, 98] \<noteq> normalize_str [97, 32, 98]"
    by (simp add: normalize_str_def py_strip_def py_isspace_def)
  have "same_up_to_ws listed_whitespace ([32, 32] @ [98]) ([32] @ [98])"
    by (rule same_run[OF _ _ _ _ b])
       (simp_all add: listed_whitespace_def py_isspace_def unicode_whitespace_def)
  then have "same_up_to_ws listed_whitespace (97 # [32, 32] @ [98]) (97 # [32] @ [98])"
    by (intro same_char) (simp_all add: listed_whitespace_def py_isspace_def unicode_whitespace_def)
  then have s2: "same_up_to_ws listed_whitespace [97, 32, 32, 98] [97, 32, 98]" by simp
  have n2: "normalize_whitespace [97, 32, 32, 98] \<noteq> normalize_whitespace [97, 32, 98]"
    by (simp add: normalize_whitespace_def)
  show ?thesis using s1 n1 s2 n2 by blast
qed

section \<open>The substring search\<close>

lemma py_find_empty: "py_find s [] = Some 0"
  by (cases s) simp_all



section \<open>Properties of the span locator\<close>




lemma combined_of_Nil [simp]: "combined_of [] = []"
  by (simp add: combined_of_def)

lemma spans_of_Nil [simp]: "spans_of [] = []"
  by (simp add: spans_of_def)



































section \<open>The tag injector\<close>

lemmas text_eval =
  str_def normalize_str_def py_strip_def py_isspace_def normalize_whitespace_def
  unicode_whitespace_def nospace_def py_in_def

lemmas window_eval =
  min_window_subsequence_def window_loop.simps forward_scan.simps backward_scan.simps
  record_window_def py_slice_def

lemmas inject_eval =
  inject_tags_def split_in_two_def split_raw_html_on_pars_def match_par_def
  compute_to_insert_def to_insert_step_def head_count_def tail_count_def
  HIGHLIGHT_HEAD_def HIGHLIGHT_TAIL_def suffix_def

lemma spans_gt: "find_text_spans [str ''x >'', str ''p''] (str ''x > p'') = Some [0, 1]"
  by (simp add: find_text_spans_def text_eval)

lemma window_gt:
  "min_window_subsequence (str ''<p>x &gt;</p><p>p</p>'') (str ''x>p'') = Inr (str ''x &gt;</p><p'')"
  by (simp add: str_def window_eval)

lemma find_gt:
  "find_clip_in_spine (highlight_of (str ''x > p'')) [doc_gt] 0 =
     Inr (Some \<lparr>match_clip = highlight_of (str ''x > p''), spine_ix = 0,
                matched_tag_indices = [0, 1],
                all_tag_str = str ''<p>x &gt;</p><p>p</p>'',
                pre_highlight = str ''x &gt;</p><p''\<rparr>)"
proof -
  have a: "nospace (str ''x > p'') = str ''x>p''" by (simp add: text_eval)
  have b: "py_in (str ''x>p'') (nospace (normalize_str (str ''x >p'')))" by (simp add: text_eval)
  have c: "normalize_whitespace (str ''<p>x &gt;</p>'' @ str ''<p>p</p>'') = str ''<p>x &gt;</p><p>p</p>''"
    by (simp add: text_eval)
  show ?thesis
    unfolding find_clip_in_spine_def
    by (simp add: Let_def doc_gt_def highlight_of_def a b c spans_gt window_gt)
qed

lemma split_gt:
  "split_raw_html_on_pars (str ''x &gt;</p><p'') = [str ''x &gt;'', str ''</p>'', str ''<p'']"
  by (simp add: str_def split_raw_html_on_pars_def match_par_def py_strip_def py_isspace_def)

lemma to_insert_gt:
  "compute_to_insert [str ''x &gt;'', str ''</p>'', str ''<p''] =
     Inr [(0, HIGHLIGHT_HEAD), (1, HIGHLIGHT_TAIL), (3, HIGHLIGHT_HEAD)]"
  by (simp add: str_def compute_to_insert_def to_insert_step_def suffix_def
      upt_rec[of 0] upt_rec[of 1] upt_rec[of 2] upt_rec[of 3])

lemma head_ne_tail: "HIGHLIGHT_HEAD \<noteq> HIGHLIGHT_TAIL"
  by (simp add: HIGHLIGHT_HEAD_def HIGHLIGHT_TAIL_def str_def)

lemma counts_gt:
  "head_count [(a, HIGHLIGHT_HEAD), (b, HIGHLIGHT_TAIL), (c, HIGHLIGHT_HEAD)] = 2"
  "tail_count [(a, HIGHLIGHT_HEAD), (b, HIGHLIGHT_TAIL), (c, HIGHLIGHT_HEAD)] = 1"
  using head_ne_tail by (auto simp: head_count_def tail_count_def)

lemma split2_gt:
  "split_in_two (str ''<p>x &gt;</p><p>p</p>'') (str ''x &gt;</p><p'') = Inr (str ''<p>'', str ''>p</p>'')"
  by (simp add: str_def split_in_two_def)

lemma inject_gt:
  "inject_tags (str ''<p>x &gt;</p><p>p</p>'') (str ''x &gt;</p><p'') None = Inl AssertionError"
  by (simp add: inject_tags_def split2_gt split_gt to_insert_gt counts_gt)

text \<open>
  Claim C2.  The numbers of opening and closing markers are to be equal for every window the
  injector is given.  For the document \<^verbatim>\<open><p>x &gt;</p><p>p</p>\<close> and the highlight \<open>x > p\<close> the
  orchestrator produces the window \<^verbatim>\<open>x &gt;</p><p\<close>, which ends inside the opening tag of the
  second paragraph.  The injector splits it into three parts and plans two opening markers and
  one closing marker, so its assertion fails.
\<close>

theorem marker_counts_differ_on_window_ending_in_tag:
  "find_clip_in_spine (highlight_of (str ''x > p'')) [doc_gt] 0 =
     Inr (Some \<lparr>match_clip = highlight_of (str ''x > p''), spine_ix = 0,
                matched_tag_indices = [0, 1],
                all_tag_str = str ''<p>x &gt;</p><p>p</p>'',
                pre_highlight = str ''x &gt;</p><p''\<rparr>) \<and>
   split_raw_html_on_pars (str ''x &gt;</p><p'') = [str ''x &gt;'', str ''</p>'', str ''<p''] \<and>
   compute_to_insert [str ''x &gt;'', str ''</p>'', str ''<p''] =
     Inr [(0, HIGHLIGHT_HEAD), (1, HIGHLIGHT_TAIL), (3, HIGHLIGHT_HEAD)] \<and>
   head_count [(0, HIGHLIGHT_HEAD), (1, HIGHLIGHT_TAIL), (3, HIGHLIGHT_HEAD)] = 2 \<and>
   tail_count [(0, HIGHLIGHT_HEAD), (1, HIGHLIGHT_TAIL), (3, HIGHLIGHT_HEAD)] = 1 \<and>
   inject_tags (str ''<p>x &gt;</p><p>p</p>'') (str ''x &gt;</p><p'') None = Inl AssertionError"
  using find_gt split_gt to_insert_gt counts_gt inject_gt by blast

section \<open>Properties of the orchestrator\<close>

lemma min_window_total:
  assumes "t \<noteq> []"
  shows "\<exists>w. min_window_subsequence s t = Inr w"
proof -
  obtain st' where st': "window_loop s t 0 (None, - 1) = Inr st'" "loop_inv s t (length s) st'"
    using window_loop_final[OF assms] by blast
  from st'(2) consider "st' = (None, - 1)"
    | a0 b0 where "st' = (Some (int b0 - 1 - int a0), int a0 + 1)"
    unfolding loop_inv_def by blast
  then show ?thesis
    by cases (simp_all add: min_window_subsequence_def st'(1))
qed

lemma normalize_str_spaces:
  assumes "nospace c = []"
  shows "normalize_str c = []"
proof (cases c)
  case Nil
  then show ?thesis by (simp add: normalize_str_def py_strip_def)
next
  case (Cons x r)
  have all: "\<forall>y\<in>set c. y = 32"
    using assms by (simp add: nospace_def filter_empty_conv)
  then have x: "x = 32" and r: "\<forall>y\<in>set r. py_isspace y" using Cons by auto
  have d: "dropWhile py_isspace r = []" using r by simp
  have "sub_ws c = 32 # sub_ws (dropWhile py_isspace r)" using x Cons by simp
  then have "sub_ws c = [32]" unfolding d by simp
  then show ?thesis by (simp add: normalize_str_def py_strip_def)
qed

lemma collect_matched_zero: "collect_matched spans i 0 0 acc = acc"
  by (induction spans arbitrary: i) auto

lemma find_text_spans_spaces:
  "nospace c = [] \<Longrightarrow> find_text_spans texts c = Some []"
  by (simp add: find_text_spans_def normalize_str_spaces py_find_empty collect_matched_zero)

lemma find_clip_from_total: "\<exists>r. find_clip_from clip spine ix = Inr r"
proof (induction spine arbitrary: ix)
  case Nil
  then show ?case by simp
next
  case (Cons item rest)
  show ?case
  proof (cases "py_in (nospace (clip_content clip)) (nospace (normalize_str (doc_text item)))")
    case False
    then show ?thesis using Cons[of "ix + 1"] by simp
  next
    case True
    show ?thesis
    proof (cases "find_text_spans (map par_text (doc_pars item)) (clip_content clip)")
      case None
      then show ?thesis using True by simp
    next
      case (Some matched)
      show ?thesis
      proof (cases "nospace (clip_content clip) = []")
        case e: True
        then have "matched = []" using find_text_spans_spaces Some by simp
        then show ?thesis using True Some e
          by (simp add: normalize_whitespace_def min_window_empty_target)
      next
        case ne: False
        obtain w where "min_window_subsequence
            (normalize_whitespace (concat (map (\<lambda>i. par_str (doc_pars item ! i)) matched)))
            (nospace (clip_content clip)) = Inr w"
          using min_window_total[OF ne] by blast
        then show ?thesis using True Some by simp
      qed
    qed
  qed
qed

lemma find_clip_in_spine_total: "\<exists>r. find_clip_in_spine clip spine start = Inr r"
  unfolding find_clip_in_spine_def by (rule find_clip_from_total)

lemma find_matches_loop_result:
  "\<exists>new. find_matches_loop clippings spine (matches, log) =
           Inr (matches @ new, log @ map (log_line_of spine) clippings) \<and>
         map match_clip new = filter (is_matched spine) clippings \<and>
         list_all (\<lambda>m. find_clip_in_spine (match_clip m) spine 0 = Inr (Some m)) new"
proof (induction clippings arbitrary: matches log)
  case Nil
  then show ?case by simp
next
  case (Cons clip rest)
  obtain r where r: "find_clip_in_spine clip spine 0 = Inr r"
    using find_clip_in_spine_total by blast
  show ?case
  proof (cases r)
    case None
    obtain new where new:
      "find_matches_loop rest spine (matches, log @ [Not_found (normalize_str (clip_content clip))]) =
         Inr (matches @ new,
              (log @ [Not_found (normalize_str (clip_content clip))]) @ map (log_line_of spine) rest)"
      "map match_clip new = filter (is_matched spine) rest"
      "list_all (\<lambda>m. find_clip_in_spine (match_clip m) spine 0 = Inr (Some m)) new"
      using Cons[of matches "log @ [Not_found (normalize_str (clip_content clip))]"] by blast
    have "\<not> is_matched spine clip" using r None by (simp add: is_matched_def)
    moreover have "log_line_of spine clip = Not_found (normalize_str (clip_content clip))"
      using r None by (simp add: log_line_of_def)
    ultimately show ?thesis using r None new by (intro exI[of _ new]) simp
  next
    case (Some m)
    have mc: "match_clip m = clip"
    proof -
      have "\<And>sp ix. find_clip_from clip sp ix = Inr (Some m) \<Longrightarrow> match_clip m = clip"
      proof -
        fix sp ix show "find_clip_from clip sp ix = Inr (Some m) \<Longrightarrow> match_clip m = clip"
          by (induction sp arbitrary: ix)
             (auto simp: Let_def split: if_splits option.splits sum.splits)
      qed
      then show ?thesis using r Some unfolding find_clip_in_spine_def by blast
    qed
    obtain new where new:
      "find_matches_loop rest spine
         (matches @ [m], log @ [Found (normalize_str (clip_content clip)) (spine_ix m)]) =
         Inr ((matches @ [m]) @ new,
              (log @ [Found (normalize_str (clip_content clip)) (spine_ix m)])
                @ map (log_line_of spine) rest)"
      "map match_clip new = filter (is_matched spine) rest"
      "list_all (\<lambda>m. find_clip_in_spine (match_clip m) spine 0 = Inr (Some m)) new"
      using Cons[of "matches @ [m]" "log @ [Found (normalize_str (clip_content clip)) (spine_ix m)]"]
      by blast
    have "is_matched spine clip" using r Some by (auto simp: is_matched_def)
    moreover have "log_line_of spine clip = Found (normalize_str (clip_content clip)) (spine_ix m)"
      using r Some by (simp add: log_line_of_def)
    ultimately show ?thesis using r Some new mc by (intro exI[of _ "m # new"]) simp
  qed
qed

lemma find_matches_result:
  "\<exists>matches. find_matches clippings spine = Inr (matches, map (log_line_of spine) clippings) \<and>
         map match_clip matches = filter (is_matched spine) clippings \<and>
         list_all (\<lambda>m. find_clip_in_spine (match_clip m) spine 0 = Inr (Some m)) matches"
  using find_matches_loop_result[of clippings spine "[]" "[]"] by (simp add: find_matches_def)

lemma find_clip_from_ix:
  "find_clip_from clip sp ix = Inr (Some m) \<Longrightarrow> ix \<le> spine_ix m \<and> spine_ix m < ix + length sp"
proof (induction sp arbitrary: ix)
  case Nil
  then show ?case by simp
next
  case (Cons item rest)
  show ?case
  proof (cases "py_in (nospace (clip_content clip)) (nospace (normalize_str (doc_text item)))")
    case True
    then have "spine_ix m = ix"
      using Cons.prems by (auto simp: Let_def split: option.splits sum.splits)
    then show ?thesis by simp
  next
    case False
    then have "find_clip_from clip rest (ix + 1) = Inr (Some m)" using Cons.prems by simp
    then have "ix + 1 \<le> spine_ix m \<and> spine_ix m < ix + 1 + length rest" by (rule Cons.IH)
    then show ?thesis by simp
  qed
qed

lemma find_clip_in_spine_ix:
  "find_clip_in_spine clip spine 0 = Inr (Some m) \<Longrightarrow> spine_ix m < length spine"
  using find_clip_from_ix[of clip spine 0 m] by (simp add: find_clip_in_spine_def)

lemma find_matches_in_range:
  "\<exists>matches. find_matches clippings spine = Inr (matches, map (log_line_of spine) clippings) \<and>
         map match_clip matches = filter (is_matched spine) clippings \<and>
         list_all (\<lambda>m. spine_ix m < length spine) matches"
proof -
  obtain matches where m:
    "find_matches clippings spine = Inr (matches, map (log_line_of spine) clippings)"
    "map match_clip matches = filter (is_matched spine) clippings"
    "list_all (\<lambda>m. find_clip_in_spine (match_clip m) spine 0 = Inr (Some m)) matches"
    using find_matches_result[of clippings spine] by blast
  have "list_all (\<lambda>m. spine_ix m < length spine) matches"
    unfolding list_all_iff
  proof
    fix x assume "x \<in> set matches"
    then have "find_clip_in_spine (match_clip x) spine 0 = Inr (Some x)"
      using m(3) unfolding list_all_iff by blast
    then show "spine_ix x < length spine" by (rule find_clip_in_spine_ix)
  qed
  then show ?thesis using m(1,2) by blast
qed

lemma call_TypeError: "call_create_highlighted_tags m = Inl TypeError"
  by (simp add: call_create_highlighted_tags_def py_bind_def create_highlighted_tags_params_def)

lemma apply_highlights_first:
  "apply_highlights parse_p (m # rest) blocks =
     (if spine_ix m < length blocks then Inl TypeError else Inl IndexError)"
  by (simp add: call_TypeError)

lemma apply_highlights_matches:
  "list_all (\<lambda>m. spine_ix m < length blocks) ms \<Longrightarrow>
   apply_highlights parse_p ms blocks = (if ms = [] then Inr blocks else Inl TypeError)"
  by (cases ms) (simp_all add: call_TypeError)




lemma spans_x: "find_text_spans [str ''x >'', str ''p''] (str ''x'') = Some [0]"
  by (simp add: find_text_spans_def text_eval)

lemma window_x: "min_window_subsequence (str ''<p>x &gt;</p>'') (str ''x'') = Inr (str ''x'')"
  by (simp add: str_def window_eval)

lemma find_x:
  "find_clip_in_spine (highlight_of (str ''x'')) [doc_gt] 0 =
     Inr (Some \<lparr>match_clip = highlight_of (str ''x''), spine_ix = 0,
                matched_tag_indices = [0],
                all_tag_str = str ''<p>x &gt;</p>'',
                pre_highlight = str ''x''\<rparr>)"
proof -
  have a: "nospace (str ''x'') = str ''x''" by (simp add: text_eval)
  have b: "py_in (str ''x'') (nospace (normalize_str (str ''x >p'')))" by (simp add: text_eval)
  have c: "normalize_whitespace (str ''<p>x &gt;</p>'') = str ''<p>x &gt;</p>''"
    by (simp add: text_eval)
  show ?thesis
    unfolding find_clip_in_spine_def
    by (simp add: Let_def doc_gt_def highlight_of_def a b c spans_x window_x)
qed







lemma matches_x:
  "find_matches [highlight_of (str ''x'')] [doc_gt] =
     Inr ([\<lparr>match_clip = highlight_of (str ''x''), spine_ix = 0, matched_tag_indices = [0],
            all_tag_str = str ''<p>x &gt;</p>'', pre_highlight = str ''x''\<rparr>],
          [Found (normalize_str (clip_content (highlight_of (str ''x'')))) 0])"
  by (simp add: find_matches_def find_x)

lemma matches_gt_x:
  "find_matches [highlight_of (str ''x > p''), highlight_of (str ''x'')] [doc_gt] =
     Inr ([\<lparr>match_clip = highlight_of (str ''x > p''), spine_ix = 0,
             matched_tag_indices = [0, 1],
             all_tag_str = str ''<p>x &gt;</p><p>p</p>'',
             pre_highlight = str ''x &gt;</p><p''\<rparr>,
           \<lparr>match_clip = highlight_of (str ''x''), spine_ix = 0, matched_tag_indices = [0],
            all_tag_str = str ''<p>x &gt;</p>'', pre_highlight = str ''x''\<rparr>],
          [Found (normalize_str (clip_content (highlight_of (str ''x > p'')))) 0,
           Found (normalize_str (clip_content (highlight_of (str ''x'')))) 0])"
  by (simp add: find_matches_def find_x find_gt)

text \<open>
  Claim C3.  The call of the tag injector in \<open>process_book\<close> passes the keyword
  \<^verbatim>\<open>highlight_color\<close>, which is not a parameter of \<open>create_highlighted_tags\<close>: the call does not
  bind and raises TypeError for every match.  In the loop over the matches the document of
  the first match is looked up, and then the call raises TypeError, before any block is
  replaced.  For the matches that \<open>find_matches\<close> produces the document is there, so the loop
  raises TypeError whenever there is a match.
\<close>

theorem call_of_tag_injector_raises_TypeError:
  "\<not> py_bind create_highlighted_tags_params 1 [''highlight_color''] \<and>
   call_create_highlighted_tags m = Inl TypeError \<and>
   apply_highlights parse_p (m # rest) blocks =
     (if spine_ix m < length blocks then Inl TypeError else Inl IndexError) \<and>
   (\<exists>matches log. find_matches clippings spine = Inr (matches, log) \<and>
      apply_highlights parse_p matches (map doc_pars spine) =
        (if matches = [] then Inr (map doc_pars spine) else Inl TypeError))"
proof -
  have a: "\<not> py_bind create_highlighted_tags_params 1 [''highlight_color'']"
    by (simp add: py_bind_def create_highlighted_tags_params_def)
  obtain matches where m:
    "find_matches clippings spine = Inr (matches, map (log_line_of spine) clippings)"
    "list_all (\<lambda>m. spine_ix m < length spine) matches"
    using find_matches_in_range[of clippings spine] by blast
  have "list_all (\<lambda>m. spine_ix m < length (map doc_pars spine)) matches" using m(2) by simp
  then have "apply_highlights parse_p matches (map doc_pars spine) =
        (if matches = [] then Inr (map doc_pars spine) else Inl TypeError)"
    by (rule apply_highlights_matches)
  then have "\<exists>matches log. find_matches clippings spine = Inr (matches, log) \<and>
      apply_highlights parse_p matches (map doc_pars spine) =
        (if matches = [] then Inr (map doc_pars spine) else Inl TypeError)"
    using m(1) by blast
  then show ?thesis using a call_TypeError[of m] apply_highlights_first[of parse_p m rest blocks]
    by blast
qed

text \<open>
  Claim C9 fails on the code.  \<open>find_matches\<close> completes on every batch with one log line for
  each annotation, so a miss never aborts.  But \<open>process_book\<close> completes with its summary only
  for a batch without any match, and the summary is then 0 of the number of annotations.
  With a match, the loop over the matches raises TypeError at the first one, by the call of
  claim C3; \<open>process_book\<close> catches no exception, so the operation ends there with no summary
  and no annotation applied.  Two such batches on the document \<^verbatim>\<open><p>x &gt;</p><p>p</p>\<close>: the
  highlight \<open>x\<close> alone, and the highlights \<open>x > p\<close> and \<open>x\<close>.
\<close>

theorem process_book_completes_only_without_matches:
  "(\<exists>matches. find_matches clippings spine = Inr (matches, map (log_line_of spine) clippings) \<and>
      map match_clip matches = filter (is_matched spine) clippings \<and>
      process_book parse_p clippings spine =
        (if matches = [] then Inr (map doc_pars spine, 0, length clippings) else Inl TypeError)) \<and>
   process_book parse_p [highlight_of (str ''x'')] [doc_gt] = Inl TypeError \<and>
   process_book parse_p [highlight_of (str ''x > p''), highlight_of (str ''x'')] [doc_gt] =
     Inl TypeError"
proof -
  obtain matches where m:
    "find_matches clippings spine = Inr (matches, map (log_line_of spine) clippings)"
    "map match_clip matches = filter (is_matched spine) clippings"
    "list_all (\<lambda>m. spine_ix m < length spine) matches"
    using find_matches_in_range[of clippings spine] by blast
  have "list_all (\<lambda>m. spine_ix m < length (map doc_pars spine)) matches" using m(3) by simp
  then have ap: "apply_highlights parse_p matches (map doc_pars spine) =
        (if matches = [] then Inr (map doc_pars spine) else Inl TypeError)"
    by (rule apply_highlights_matches)
  have "process_book parse_p clippings spine =
        (if matches = [] then Inr (map doc_pars spine, 0, length clippings) else Inl TypeError)"
    unfolding process_book_def m(1) using ap by simp
  then have g: "\<exists>matches. find_matches clippings spine =
        Inr (matches, map (log_line_of spine) clippings) \<and>
      map match_clip matches = filter (is_matched spine) clippings \<and>
      process_book parse_p clippings spine =
        (if matches = [] then Inr (map doc_pars spine, 0, length clippings) else Inl TypeError)"
    using m(1,2) by blast
  have x: "process_book parse_p [highlight_of (str ''x'')] [doc_gt] = Inl TypeError"
    unfolding process_book_def matches_x by (simp add: call_TypeError doc_gt_def)
  have gx: "process_book parse_p [highlight_of (str ''x > p''), highlight_of (str ''x'')] [doc_gt] =
     Inl TypeError"
    unfolding process_book_def matches_gt_x by (simp add: call_TypeError doc_gt_def)
  show ?thesis using g x gx by blast
qed

end
